theory Spec2Isabelle
  imports Complex_Main "HOL-Library.AList"
begin

section \<open>Caption timing: the model of \<open>utility/captions/timed_captions_generator.py\<close>\<close>

text \<open>
  The theory embeds the caption-timing core of the repository: \<open>splitWordsBySize\<close>,
  \<open>getTimestampMapping\<close>, \<open>cleanWord\<close>, \<open>interpolateTimeFromDict\<close> and
  \<open>getCaptionsWithTime\<close>.

  Conventions of the embedding.
  \<^item> Python \<open>str\<close> is \<open>string\<close>; the character classes of \<open>str.isspace\<close> and of the
    regular expression class \<open>\w\<close> are written out for the code points below 256.
  \<^item> Python \<open>int\<close> is \<open>int\<close>; a time in seconds (a Python \<open>float\<close>) is an exact
    \<open>real\<close>: rounding, infinities and NaN are outside the model.
  \<^item> A \<open>dict\<close> whose iteration order matters is an association list in insertion order,
    assignment to a key being \<open>AList.update\<close> (replace in place, else append).
  \<^item> The transcription result is a record of the keys the code reads, each of them
    optional (\<open>None\<close>: the key is absent), with values of the types of the data model.
  \<^item> A raised exception is \<open>Inl\<close> of an \<open>error\<close>; \<open>print\<close> calls are dropped.
\<close>

subsection \<open>Strings\<close>

definition is_space :: "char \<Rightarrow> bool" where
  \<comment> \<open>\<open>str.isspace\<close>, which is also the class \<open>\s\<close> of \<open>re\<close> on \<open>str\<close> patterns\<close>
  "is_space c = ((of_char c :: nat) \<in> {9, 10, 11, 12, 13, 28, 29, 30, 31, 32, 133, 160})"

definition is_word_char :: "char \<Rightarrow> bool" where
  \<comment> \<open>the class \<open>\w\<close> of \<open>re\<close> on \<open>str\<close> patterns: alphanumeric or underscore\<close>
  "is_word_char c = (let n = (of_char c :: nat) in
     (48 \<le> n \<and> n \<le> 57) \<or> (65 \<le> n \<and> n \<le> 90) \<or> n = 95 \<or> (97 \<le> n \<and> n \<le> 122) \<or>
     n \<in> {170, 178, 179, 181, 185, 186, 188, 189, 190} \<or>
     (192 \<le> n \<and> n \<le> 214) \<or> (216 \<le> n \<and> n \<le> 246) \<or> (248 \<le> n \<and> n \<le> 255))"

definition strip :: "string \<Rightarrow> string" where
  \<comment> \<open>\<open>str.strip()\<close>\<close>
  "strip s = rev (dropWhile is_space (rev (dropWhile is_space s)))"

fun split_from :: "string \<Rightarrow> string \<Rightarrow> string list" where
  "split_from cur [] = (if cur = [] then [] else [cur])"
| "split_from cur (c # cs) =
     (if is_space c then (if cur = [] then split_from [] cs else cur # split_from [] cs)
      else split_from (cur @ [c]) cs)"

definition split :: "string \<Rightarrow> string list" where
  \<comment> \<open>\<open>str.split()\<close>: the maximal runs of non-whitespace characters\<close>
  "split s = split_from [] s"

fun re_split_from :: "bool \<Rightarrow> char option \<Rightarrow> string \<Rightarrow> string \<Rightarrow> string list" where
  "re_split_from in_sep prev cur [] = [cur]"
| "re_split_from in_sep prev cur (c # cs) =
     (if c = CHR '' '' \<and> in_sep then re_split_from True (Some c) cur cs
      else if c = CHR '' '' \<and> prev \<in> {Some CHR ''.'', Some CHR ''!'', Some CHR ''?''}
        then cur # re_split_from True (Some c) [] cs
      else re_split_from False (Some c) (cur @ [c]) cs)"

definition re_split_sentences :: "string \<Rightarrow> string list" where
  \<comment> \<open>\<open>re.split(r'(?<=[.!?]) +', text)\<close>: cut at every run of spaces that follows one of
      \<open>.\<close>, \<open>!\<close>, \<open>?\<close>\<close>
  "re_split_sentences s = re_split_from False None [] s"

definition cleanWord :: "string \<Rightarrow> string" where
  \<comment> \<open>\<open>re.sub(r'[^\w\s\-_"\'\']', '', word)\<close>\<close>
  "cleanWord word =
     filter (\<lambda>c. is_word_char c \<or> is_space c \<or> c = CHR ''-'' \<or> c = CHR ''_'' \<or>
                 c = CHR 0x22 \<or> c = CHR 0x27) word"

subsection \<open>The text chunker\<close>

fun grow_caption :: "int \<Rightarrow> string \<Rightarrow> string list \<Rightarrow> string \<times> string list" where
  \<comment> \<open>the inner \<open>while\<close> of \<open>splitWordsBySize\<close>: the caption and the words left\<close>
  "grow_caption maxCaptionSize caption [] = (caption, [])"
| "grow_caption maxCaptionSize caption (w # ws) =
     (if int (length (caption @ '' '' @ w)) \<le> maxCaptionSize then
        (let caption' = caption @ '' '' @ w in
           if real (length caption') \<ge> real_of_int maxCaptionSize / 2 \<and> ws \<noteq> []
           then (caption', ws)
           else grow_caption maxCaptionSize caption' ws)
      else (caption, w # ws))"

lemma grow_caption_length:
  "length (snd (grow_caption m c ws)) \<le> length ws"
  by (induction ws arbitrary: c) (auto simp: Let_def le_SucI)

function splitWordsBySize :: "string list \<Rightarrow> int \<Rightarrow> string list" where
  "splitWordsBySize [] maxCaptionSize = []"
| "splitWordsBySize (w # ws) maxCaptionSize =
     (case grow_caption maxCaptionSize w ws of
        (caption, rest) \<Rightarrow> caption # splitWordsBySize rest maxCaptionSize)"
  by pat_completeness auto
termination
proof (relation "measure (\<lambda>(ws, m). length ws)", goal_cases)
  case 1
  show ?case by simp
next
  case (2 w ws maxCaptionSize x rest)
  then have "rest = snd (grow_caption maxCaptionSize w ws)"
    by (metis snd_conv)
  then have "length rest \<le> length ws"
    by (simp add: grow_caption_length)
  then show ?case by simp
qed

subsection \<open>The transcription result\<close>

text \<open>
  A word entry is a mapping with the optional keys \<open>text\<close>, \<open>word\<close>, \<open>start\<close> and
  \<open>end\<close>, or something that is not a mapping; of a segment the code reads the keys
  \<open>words\<close> and \<open>end\<close>, of the result the keys \<open>text\<close> and \<open>segments\<close>.
\<close>

record word_dict =
  wd_text :: "string option"
  wd_word :: "string option"
  wd_start :: "real option"
  wd_end :: "real option"

datatype word_entry = NotADict | WordDict word_dict

record segment =
  seg_words :: "word_entry list option"
  seg_end :: "real option"

record whisper_analysis =
  wa_text :: "string option"
  wa_segments :: "segment list option"

type_synonym timestamps = "string \<rightharpoonup> real"
type_synonym time_index = "((int \<times> int) \<times> timestamps) list"

subsection \<open>The timestamp index builder\<close>

definition word_text_of :: "word_dict \<Rightarrow> string option" where
  \<comment> \<open>the key \<open>text\<close> if present, else the key \<open>word\<close>, stripped\<close>
  "word_text_of w =
     (case wd_text w of
        Some t \<Rightarrow> Some (strip t)
      | None \<Rightarrow> (case wd_word w of Some t \<Rightarrow> Some (strip t) | None \<Rightarrow> None))"

fun index_word :: "int \<times> time_index \<Rightarrow> word_entry \<Rightarrow> int \<times> time_index" where
  \<comment> \<open>one round of the loop over the words of a segment, on \<open>(index, locationToTimestamp)\<close>\<close>
  "index_word (index, d) NotADict = (index, d)"
| "index_word (index, d) (WordDict w) =
     (case (word_text_of w, wd_start w, wd_end w) of
        (Some word_text, Some s, Some e) \<Rightarrow>
          if word_text = [] then (index, d)
          else (let start_index = index; end_index = index + int (length word_text)
                in (end_index + 1,
                    AList.update (start_index, end_index) [''start'' \<mapsto> s, ''end'' \<mapsto> e] d))
      | _ \<Rightarrow> (index, d))"

definition index_segment :: "int \<times> time_index \<Rightarrow> segment \<Rightarrow> int \<times> time_index" where
  "index_segment st seg =
     (case seg_words seg of
        None \<Rightarrow> st
      | Some ws \<Rightarrow> if ws = [] then st else foldl index_word st ws)"

definition getTimestampMapping :: "whisper_analysis \<Rightarrow> time_index" where
  \<comment> \<open>on a transcription result of this type nothing in the body raises, so the handler
      \<open>except Exception: return {}\<close> has no branch here\<close>
  "getTimestampMapping wa =
     (case wa_segments wa of
        None \<Rightarrow> []
      | Some segments \<Rightarrow> snd (foldl index_segment (0, []) segments))"

subsection \<open>The time interpolator\<close>

fun first_containing :: "int \<Rightarrow> time_index \<Rightarrow> timestamps option" where
  \<comment> \<open>the first loop: the timestamps of the first range that holds the position\<close>
  "first_containing word_position [] = None"
| "first_containing word_position (((start, end), ts) # d) =
     (if start \<le> word_position \<and> word_position < end then Some ts
      else first_containing word_position d)"

fun closest_preceding ::
  "int \<Rightarrow> string \<Rightarrow> real option \<times> int option \<Rightarrow> (int \<times> int) \<times> timestamps
     \<Rightarrow> real option \<times> int option" where
  \<comment> \<open>one round of the second loop on \<open>(closest_time, min_distance)\<close>; the distance
      \<open>None\<close> is \<open>float('inf')\<close>\<close>
  "closest_preceding word_position search_type (closest_time, min_distance) ((start, end), ts) =
     (if word_position \<ge> end then
        (let distance = word_position - end in
           if (case min_distance of None \<Rightarrow> True | Some m \<Rightarrow> distance < m)
           then (ts search_type, Some distance)
           else (closest_time, min_distance))
      else (closest_time, min_distance))"

definition interpolateTimeFromDict :: "int \<Rightarrow> time_index \<Rightarrow> string \<Rightarrow> real option" where
  "interpolateTimeFromDict word_position d search_type =
     (if d = [] then None
      else (case first_containing word_position d of
              Some ts \<Rightarrow> ts search_type
            | None \<Rightarrow> fst (foldl (closest_preceding word_position search_type) (None, None) d)))"

subsection \<open>The caption assembler\<close>

datatype error = ValueError string

type_synonym caption = "(real \<times> real) \<times> string"

definition total_duration_of :: "whisper_analysis \<Rightarrow> real" where
  \<comment> \<open>the last segment's \<open>end\<close> when the key is there and its value is truthy, else 10.0\<close>
  "total_duration_of wa =
     (case wa_segments wa of
        None \<Rightarrow> 10
      | Some segments \<Rightarrow>
          if segments = [] then 10
          else (case seg_end (last segments) of
                  None \<Rightarrow> 10
                | Some e \<Rightarrow> if e \<noteq> 0 then e else 10))"

definition estimated_step :: "bool \<Rightarrow> real \<Rightarrow> caption list \<Rightarrow> nat \<times> string \<Rightarrow> caption list" where
  \<comment> \<open>one round of the loop of the estimated-timing branch on \<open>CaptionsPairs\<close>\<close>
  "estimated_step considerPunctuation duration_per_caption CaptionsPairs ic =
     (case ic of (i, caption_text) \<Rightarrow>
        if strip caption_text \<noteq> [] then
          (let start_time = real i * duration_per_caption;
               end_time = real (i + 1) * duration_per_caption;
               caption_text = (if \<not> considerPunctuation then cleanWord caption_text
                               else caption_text);
               caption_text = strip caption_text
           in if caption_text \<noteq> [] then CaptionsPairs @ [((start_time, end_time), caption_text)]
              else CaptionsPairs)
        else CaptionsPairs)"

definition timed_step ::
  "bool \<Rightarrow> time_index \<Rightarrow> int \<times> real \<times> caption list \<Rightarrow> nat \<times> string
     \<Rightarrow> int \<times> real \<times> caption list" where
  \<comment> \<open>one round of the loop of the timestamp branch on
      \<open>(text_position, start_time, CaptionsPairs)\<close>\<close>
  "timed_step considerPunctuation wordLocationToTime st ic =
     (case (st, ic) of ((text_position, start_time, CaptionsPairs), (i, caption_text)) \<Rightarrow>
        (let caption_text = strip caption_text in
         if caption_text = [] then (text_position, start_time, CaptionsPairs)
         else
           (let text_position =
                  (if i = 0 then int (length caption_text)
                   else text_position + int (length caption_text) + 1);
                end_time = interpolateTimeFromDict text_position wordLocationToTime ''end'';
                end_time =
                  (case end_time of
                     None \<Rightarrow>
                       if CaptionsPairs \<noteq> [] then
                         (let last_end = snd (fst (last CaptionsPairs));
                              estimated_duration = real (length caption_text) * (1 / 10)
                          in Some (last_end + estimated_duration))
                       else Some (real (length caption_text) * (1 / 10))
                   | Some t \<Rightarrow> Some t);
                end_time =
                  (case end_time of
                     None \<Rightarrow> Some (start_time + real (length caption_text) * (1 / 10))
                   | Some t \<Rightarrow> Some t);
                caption_text = (if \<not> considerPunctuation then cleanWord caption_text
                                else caption_text);
                caption_text = strip caption_text
            in (case end_time of
                  Some t \<Rightarrow>
                    if caption_text \<noteq> []
                    then (text_position, t, CaptionsPairs @ [((start_time, t), caption_text)])
                    else (text_position, start_time, CaptionsPairs)
                | None \<Rightarrow> (text_position, start_time, CaptionsPairs)))))"

definition caption_chunks :: "string \<Rightarrow> int \<Rightarrow> bool \<Rightarrow> string list" where
  \<comment> \<open>the list \<open>words\<close> of \<open>getCaptionsWithTime\<close>\<close>
  "caption_chunks text maxCaptionSize considerPunctuation =
     (if considerPunctuation then
        concat (map (\<lambda>sentence. splitWordsBySize (split sentence) maxCaptionSize)
                    (re_split_sentences text))
      else splitWordsBySize (split text) maxCaptionSize)"

definition getCaptionsWithTime_try ::
  "whisper_analysis \<Rightarrow> int \<Rightarrow> bool \<Rightarrow> error + caption list" where
  \<comment> \<open>the body of the \<open>try\<close> block\<close>
  "getCaptionsWithTime_try wa maxCaptionSize considerPunctuation =
     (if wa_text wa = None \<and> wa_segments wa = None
        then Inl (ValueError ''Invalid whisper_analysis'')
      else (case wa_text wa of
        None \<Rightarrow> Inl (ValueError ''No 'text' field in whisper_analysis'')
      | Some text \<Rightarrow>
          if text = [] \<or> strip text = [] then Inr []
          else
            (let text = strip text;
                 wordLocationToTime = getTimestampMapping wa;
                 words = caption_chunks text maxCaptionSize considerPunctuation
             in if wordLocationToTime = [] then
                  (let total_duration = total_duration_of wa;
                       duration_per_caption =
                         (if words \<noteq> [] then total_duration / real (length words) else 1)
                   in Inr (foldl (estimated_step considerPunctuation duration_per_caption) []
                             (enumerate 0 words)))
                else
                  (case foldl (timed_step considerPunctuation wordLocationToTime) (0, 0, [])
                          (enumerate 0 words) of
                     (text_position, start_time, CaptionsPairs) \<Rightarrow> Inr CaptionsPairs))))"

definition getCaptionsWithTime ::
  "whisper_analysis \<Rightarrow> int \<Rightarrow> bool \<Rightarrow> error + caption list" where
  \<comment> \<open>the function with its handler \<open>except Exception: return []\<close>\<close>
  "getCaptionsWithTime wa maxCaptionSize considerPunctuation =
     (case getCaptionsWithTime_try wa maxCaptionSize considerPunctuation of
        Inl e \<Rightarrow> Inr []
      | Inr CaptionsPairs \<Rightarrow> Inr CaptionsPairs)"

subsection \<open>Joining and splitting on single spaces\<close>

text \<open>
  \<open>' '.join(ws)\<close> and \<open>s.split(' ')\<close>, in which the chunker's relation to its input is
  stated. \<open>join_tail ws\<close> is the text that \<open>ws\<close> adds to a caption already begun.
\<close>

fun join_tail :: "string list \<Rightarrow> string" where
  "join_tail [] = []"
| "join_tail (w # ws) = '' '' @ w @ join_tail ws"

definition join_spaces :: "string list \<Rightarrow> string" where
  "join_spaces ws = (case ws of [] \<Rightarrow> [] | w # rest \<Rightarrow> w @ join_tail rest)"

fun split_space_from :: "string \<Rightarrow> string \<Rightarrow> string list" where
  "split_space_from cur [] = [cur]"
| "split_space_from cur (c # cs) =
     (if c = CHR '' '' then cur # split_space_from [] cs else split_space_from (cur @ [c]) cs)"

definition split_space :: "string \<Rightarrow> string list" where
  "split_space s = split_space_from [] s"

subsection \<open>Ranges of the time index\<close>

definition range_end :: "(int \<times> int) \<times> timestamps \<Rightarrow> int" where
  "range_end r = snd (fst r)"

definition in_range :: "int \<Rightarrow> (int \<times> int) \<times> timestamps \<Rightarrow> bool" where
  \<comment> \<open>the position lies in the half-open range of the entry\<close>
  "in_range p r = (fst (fst r) \<le> p \<and> p < snd (fst r))"

definition closest_inv ::
  "int \<Rightarrow> string \<Rightarrow> time_index \<Rightarrow> real option \<times> int option \<Rightarrow> bool" where
  \<comment> \<open>what the second loop of the interpolator holds after the entries \<open>d\<close>\<close>
  "closest_inv p f d st =
     ((snd st = None \<and> fst st = None \<and> (\<forall>r \<in> set d. \<not> range_end r \<le> p)) \<or>
      (\<exists>r \<in> set d. range_end r \<le> p \<and> snd st = Some (p - range_end r) \<and> fst st = snd r f \<and>
         (\<forall>r' \<in> set d. range_end r' \<le> p \<longrightarrow> p - range_end r \<le> p - range_end r')))"

subsection \<open>The index as the specification describes it\<close>

text \<open>
  A word is usable when it is a mapping with a text (under the key \<open>text\<close>, else under
  the key \<open>word\<close>) that is not blank and with both timestamps. The specification's index
  gives the usable words, in segment and word order, the ranges
  \<open>[cursor, cursor + len(wordText))\<close>, the cursor advancing by \<open>len(wordText) + 1\<close>.
\<close>

fun usable_word :: "word_entry \<Rightarrow> (string \<times> real \<times> real) option" where
  "usable_word NotADict = None"
| "usable_word (WordDict w) =
     (case (word_text_of w, wd_start w, wd_end w) of
        (Some word_text, Some s, Some e) \<Rightarrow> if word_text = [] then None else Some (word_text, s, e)
      | _ \<Rightarrow> None)"

definition segment_words :: "segment \<Rightarrow> word_entry list" where
  "segment_words seg = (case seg_words seg of None \<Rightarrow> [] | Some ws \<Rightarrow> ws)"

definition usable_words :: "whisper_analysis \<Rightarrow> (string \<times> real \<times> real) list" where
  "usable_words wa =
     (case wa_segments wa of
        None \<Rightarrow> []
      | Some segments \<Rightarrow> List.map_filter usable_word (concat (map segment_words segments)))"

fun spec_index_from :: "int \<Rightarrow> (string \<times> real \<times> real) list \<Rightarrow> time_index" where
  "spec_index_from cursor [] = []"
| "spec_index_from cursor ((word_text, s, e) # ws) =
     ((cursor, cursor + int (length word_text)), [''start'' \<mapsto> s, ''end'' \<mapsto> e])
       # spec_index_from (cursor + int (length word_text) + 1) ws"

fun spec_cursor_after :: "int \<Rightarrow> (string \<times> real \<times> real) list \<Rightarrow> int" where
  \<comment> \<open>the cursor after the words\<close>
  "spec_cursor_after cursor [] = cursor"
| "spec_cursor_after cursor ((word_text, s, e) # ws) =
     spec_cursor_after (cursor + int (length word_text) + 1) ws"

subsection \<open>Chains of intervals\<close>

fun chain :: "real \<Rightarrow> caption list \<Rightarrow> real \<Rightarrow> bool" where
  \<comment> \<open>the intervals lead from the first time to the second without a gap\<close>
  "chain s [] e = (s = e)"
| "chain s (((a, b), caption_text) # ps) e = (a = s \<and> chain b ps e)"

subsection \<open>The estimated-timing branch in closed form\<close>

definition emitted_text :: "bool \<Rightarrow> string \<Rightarrow> string" where
  \<comment> \<open>the text under which a chunk is emitted: cleaned unless punctuation is kept, then
      stripped\<close>
  "emitted_text considerPunctuation caption_text =
     strip (if \<not> considerPunctuation then cleanWord caption_text else caption_text)"

definition slice :: "real \<Rightarrow> bool \<Rightarrow> nat \<times> string \<Rightarrow> caption" where
  \<comment> \<open>the entry of chunk \<open>i\<close> when every chunk has the same duration\<close>
  "slice duration_per_caption considerPunctuation ic =
     (case ic of (i, caption_text) \<Rightarrow>
        ((real i * duration_per_caption, real (i + 1) * duration_per_caption),
         emitted_text considerPunctuation caption_text))"

text \<open>
  The code computes the bounds of a slice in floating point. To say what the bounds are
  without fixing how the arithmetic rounds, the estimated-timing branch is given a second
  time with its two operations left open: \<open>mul_op i d\<close> for \<open>i * duration_per_caption\<close>
  and \<open>div_op t n\<close> for \<open>total_duration / len(words)\<close>. With the exact operations it
  is the branch of \<open>getCaptionsWithTime_try\<close> above.
\<close>

definition estimated_step_arith ::
  "(nat \<Rightarrow> real \<Rightarrow> real) \<Rightarrow> bool \<Rightarrow> real \<Rightarrow> caption list \<Rightarrow> nat \<times> string
     \<Rightarrow> caption list" where
  "estimated_step_arith mul_op considerPunctuation duration_per_caption CaptionsPairs ic =
     (case ic of (i, caption_text) \<Rightarrow>
        if strip caption_text \<noteq> [] then
          (let start_time = mul_op i duration_per_caption;
               end_time = mul_op (i + 1) duration_per_caption;
               caption_text = (if \<not> considerPunctuation then cleanWord caption_text
                               else caption_text);
               caption_text = strip caption_text
           in if caption_text \<noteq> [] then CaptionsPairs @ [((start_time, end_time), caption_text)]
              else CaptionsPairs)
        else CaptionsPairs)"

definition estimated_captions ::
  "(nat \<Rightarrow> real \<Rightarrow> real) \<Rightarrow> (real \<Rightarrow> nat \<Rightarrow> real) \<Rightarrow> whisper_analysis \<Rightarrow> string list \<Rightarrow> bool
     \<Rightarrow> caption list" where
  \<comment> \<open>the estimated-timing branch on the chunks \<open>words\<close>\<close>
  "estimated_captions mul_op div_op wa words considerPunctuation =
     (let total_duration = total_duration_of wa;
          duration_per_caption =
            (if words \<noteq> [] then div_op total_duration (length words) else 1)
      in foldl (estimated_step_arith mul_op considerPunctuation duration_per_caption) []
           (enumerate 0 words))"

subsection \<open>Invariants of the two loops of the assembler\<close>

definition estimated_inv :: "real \<Rightarrow> nat \<Rightarrow> caption list \<Rightarrow> bool" where
  \<comment> \<open>before chunk \<open>k\<close> of the estimated-timing loop\<close>
  "estimated_inv duration_per_caption k CaptionsPairs =
     ((\<forall>e \<in> set CaptionsPairs.
         fst (fst e) \<le> snd (fst e) \<and> snd (fst e) \<le> real k * duration_per_caption) \<and>
      sorted (map (\<lambda>e. snd (fst e)) CaptionsPairs))"

definition timed_inv :: "time_index \<Rightarrow> int \<times> real \<times> caption list \<Rightarrow> bool" where
  \<comment> \<open>between two rounds of the timestamp loop\<close>
  "timed_inv d st =
     (case st of (text_position, start_time, CaptionsPairs) \<Rightarrow>
        0 \<le> text_position \<and>
        (\<forall>e \<in> set CaptionsPairs. fst (fst e) \<le> snd (fst e) \<and> snd (fst e) \<le> start_time) \<and>
        sorted (map (\<lambda>e. snd (fst e)) CaptionsPairs) \<and>
        (\<forall>q a. text_position < q \<longrightarrow> interpolateTimeFromDict q d ''end'' = Some a
               \<longrightarrow> start_time \<le> a))"

subsection \<open>Example transcriptions\<close>

definition timed_word :: "string \<Rightarrow> real \<Rightarrow> real \<Rightarrow> word_entry" where
  "timed_word w s e = WordDict \<lparr>wd_text = Some w, wd_word = None, wd_start = Some s, wd_end = Some e\<rparr>"

definition hello_world :: "real \<Rightarrow> real \<Rightarrow> real \<Rightarrow> real \<Rightarrow> whisper_analysis" where
  \<comment> \<open>a transcription of the two timed words \<open>Hello\<close> and \<open>world\<close> in one segment\<close>
  "hello_world s1 e1 s2 e2 =
     \<lparr>wa_text = Some ''Hello world'',
      wa_segments = Some
        [\<lparr>seg_words = Some
            [WordDict \<lparr>wd_text = Some ''Hello'', wd_word = None,
                       wd_start = Some s1, wd_end = Some e1\<rparr>,
             WordDict \<lparr>wd_text = None, wd_word = Some ''world'',
                       wd_start = Some s2, wd_end = Some e2\<rparr>],
          seg_end = Some e2\<rparr>]\<rparr>"

definition quick_fox :: whisper_analysis where
  \<comment> \<open>four words in one segment, each lasting three tenths of a second\<close>
  "quick_fox =
     \<lparr>wa_text = Some ''The quick brown fox'',
      wa_segments = Some
        [\<lparr>seg_words = Some
            [timed_word ''The'' 0 (3/10), timed_word ''quick'' (3/10) (6/10),
             timed_word ''brown'' (6/10) (9/10), timed_word ''fox'' (9/10) (12/10)],
          seg_end = Some (12/10)\<rparr>]\<rparr>"

definition untimed_talk :: whisper_analysis where
  \<comment> \<open>a transcription of four words in one segment of six seconds without word timings\<close>
  "untimed_talk =
     \<lparr>wa_text = Some ''Hello there, wonderful world!'',
      wa_segments = Some [\<lparr>seg_words = Some [], seg_end = Some 6\<rparr>]\<rparr>"

definition seven_letters :: whisper_analysis where
  \<comment> \<open>seven one-letter words in one segment of 29 seconds without word timings\<close>
  "seven_letters =
     \<lparr>wa_text = Some ''a b c d e f g'',
      wa_segments = Some [\<lparr>seg_words = Some [], seg_end = Some 29\<rparr>]\<rparr>"

definition dots_only :: whisper_analysis where
  \<comment> \<open>a transcription whose text is three full stops and whose only segment has no words\<close>
  "dots_only =
     \<lparr>wa_text = Some ''...'', wa_segments = Some [\<lparr>seg_words = Some [], seg_end = Some 4\<rparr>]\<rparr>"

section \<open>Properties\<close>

subsection \<open>Text cleaning\<close>

text \<open>
  Claim C8. \<open>cleanWord\<close> is idempotent; the characters it keeps are the word characters,
  whitespace, the hyphen, the underscore and the two quotation marks.
\<close>

theorem cleanWord_idempotent:
  "cleanWord (cleanWord s) = cleanWord s \<and>
   (\<forall>c. c \<in> set (cleanWord s) \<longleftrightarrow>
        c \<in> set s \<and> (is_word_char c \<or> is_space c \<or> c = CHR ''-'' \<or> c = CHR ''_'' \<or>
                      c = CHR 0x22 \<or> c = CHR 0x27))"
  by (auto simp: cleanWord_def)

subsection \<open>The text chunker\<close>

lemma grow_caption_bound:
  "grow_caption m c ws = (c', rest) \<Longrightarrow> c' = c \<or> int (length c') \<le> m"
proof (induction ws arbitrary: c)
  case Nil
  then show ?case by simp
next
  case (Cons w ws)
  show ?case
  proof (cases "int (length (c @ '' '' @ w)) \<le> m")
    case fits: True
    show ?thesis
    proof (cases "real (length (c @ '' '' @ w)) \<ge> real_of_int m / 2 \<and> ws \<noteq> []")
      case True
      with fits Cons.prems show ?thesis by (auto simp: Let_def)
    next
      case False
      with fits Cons.prems have "grow_caption m (c @ '' '' @ w) ws = (c', rest)"
        by (auto simp: Let_def)
      from Cons.IH [OF this] fits show ?thesis by auto
    qed
  next
    case False
    with Cons.prems show ?thesis by simp
  qed
qed

lemma grow_caption_rest_subset:
  "set (snd (grow_caption m c ws)) \<subseteq> set ws"
  by (induction ws arbitrary: c) (auto simp: Let_def)

lemma splitWordsBySize_bound_aux:
  "c \<in> set (splitWordsBySize ws m) \<Longrightarrow> int (length c) \<le> m \<or> c \<in> set ws"
proof (induction ws m arbitrary: c rule: splitWordsBySize.induct)
  case (1 m)
  then show ?case by simp
next
  case (2 w ws m)
  obtain cap rest where g: "grow_caption m w ws = (cap, rest)"
    by (cases "grow_caption m w ws")
  from g have sub: "set rest \<subseteq> set ws"
    using grow_caption_rest_subset [of m w ws] by simp
  from "2.prems" g have "c = cap \<or> c \<in> set (splitWordsBySize rest m)" by simp
  then show ?case
  proof
    assume "c = cap"
    with grow_caption_bound [OF g] show ?thesis by auto
  next
    assume "c \<in> set (splitWordsBySize rest m)"
    from "2.IH" [OF g [symmetric] this] sub show ?thesis by auto
  qed
qed

text \<open>
  Claim C4. Every chunk that \<open>splitWordsBySize\<close> returns is at most \<open>maxCaptionSize\<close>
  characters long, unless it is one of the input words, unsplit, and that word alone is
  longer than \<open>maxCaptionSize\<close>.
\<close>

theorem splitWordsBySize_chunk_bound:
  "\<forall>c \<in> set (splitWordsBySize ws m). int (length c) \<le> m \<or> (c \<in> set ws \<and> m < int (length c))"
  using splitWordsBySize_bound_aux by fastforce

theorem splitWordsBySize_chunk_bound_witness:
  "splitWordsBySize [''to'', ''be'', ''incomprehensibilities'', ''or'', ''not''] 15
     = [''to be'', ''incomprehensibilities'', ''or not''] \<and>
   int (length ''to be'') \<le> 15 \<and>
   ''incomprehensibilities'' \<in> set [''to'', ''be'', ''incomprehensibilities'', ''or'', ''not''] \<and>
   15 < int (length ''incomprehensibilities'') \<and>
   int (length ''or not'') \<le> 15"
  using splitWordsBySize_chunk_bound
          [of "[''to'', ''be'', ''incomprehensibilities'', ''or'', ''not'']" 15]
  by simp

lemma join_tail_append: "join_tail (xs @ ys) = join_tail xs @ join_tail ys"
  by (induction xs) auto

lemma grow_caption_words:
  "grow_caption m c ws = (c', rest) \<Longrightarrow> \<exists>taken. ws = taken @ rest \<and> c' = c @ join_tail taken"
proof (induction ws arbitrary: c)
  case Nil
  then show ?case by simp
next
  case (Cons w ws)
  show ?case
  proof (cases "int (length (c @ '' '' @ w)) \<le> m")
    case fits: True
    show ?thesis
    proof (cases "real (length (c @ '' '' @ w)) \<ge> real_of_int m / 2 \<and> ws \<noteq> []")
      case True
      with fits Cons.prems have "c' = c @ join_tail [w]" and "rest = ws"
        by (auto simp: Let_def)
      then have "w # ws = [w] @ rest \<and> c' = c @ join_tail [w]" by simp
      then show ?thesis by blast
    next
      case False
      with fits Cons.prems have "grow_caption m (c @ '' '' @ w) ws = (c', rest)"
        by (auto simp: Let_def)
      from Cons.IH [OF this] obtain taken
        where "ws = taken @ rest" and "c' = (c @ '' '' @ w) @ join_tail taken" by blast
      then have "w # ws = (w # taken) @ rest \<and> c' = c @ join_tail (w # taken)" by simp
      then show ?thesis by blast
    qed
  next
    case False
    with Cons.prems have "w # ws = [] @ rest \<and> c' = c @ join_tail []" by simp
    then show ?thesis by blast
  qed
qed

lemma join_tail_splitWordsBySize:
  "join_tail (splitWordsBySize ws m) = join_tail ws"
proof (induction ws m rule: splitWordsBySize.induct)
  case (1 m)
  then show ?case by simp
next
  case (2 w ws m)
  obtain cap rest where g: "grow_caption m w ws = (cap, rest)"
    by (cases "grow_caption m w ws")
  from grow_caption_words [OF g] obtain taken
    where t: "ws = taken @ rest" "cap = w @ join_tail taken" by blast
  from "2.IH" [OF g [symmetric]] have "join_tail (splitWordsBySize rest m) = join_tail rest" .
  with g t show ?case by (simp add: join_tail_append)
qed

lemma join_spaces_Cons: "join_spaces (w # ws) = w @ join_tail ws"
  by (simp add: join_spaces_def)

lemma join_spaces_splitWordsBySize:
  "join_spaces (splitWordsBySize ws m) = join_spaces ws"
proof (cases ws)
  case Nil
  then show ?thesis by simp
next
  case (Cons w rest0)
  obtain cap rest where g: "grow_caption m w rest0 = (cap, rest)"
    by (cases "grow_caption m w rest0")
  from grow_caption_words [OF g] obtain taken
    where t: "rest0 = taken @ rest" "cap = w @ join_tail taken" by blast
  from Cons g t show ?thesis
    by (simp add: join_spaces_Cons join_tail_splitWordsBySize join_tail_append)
qed

lemma splitWordsBySize_chunk_nonempty:
  "c \<in> set (splitWordsBySize ws m) \<Longrightarrow> \<forall>w \<in> set ws. w \<noteq> [] \<Longrightarrow> c \<noteq> []"
proof (induction ws m arbitrary: c rule: splitWordsBySize.induct)
  case (1 m)
  then show ?case by simp
next
  case (2 w ws m)
  obtain cap rest where g: "grow_caption m w ws = (cap, rest)"
    by (cases "grow_caption m w ws")
  from grow_caption_words [OF g] obtain taken
    where t: "ws = taken @ rest" "cap = w @ join_tail taken" by blast
  from "2.prems"(1) g have "c = cap \<or> c \<in> set (splitWordsBySize rest m)" by simp
  then show ?case
  proof
    assume "c = cap"
    with t "2.prems"(2) show ?thesis by simp
  next
    assume c: "c \<in> set (splitWordsBySize rest m)"
    from t "2.prems"(2) have "\<forall>w \<in> set rest. w \<noteq> []" by simp
    from "2.IH" [OF g [symmetric] c this] show ?thesis .
  qed
qed

lemma split_space_from_free:
  "CHR '' '' \<notin> set w \<Longrightarrow> split_space_from cur w = [cur @ w]"
  by (induction w arbitrary: cur) auto

lemma split_space_from_word:
  "CHR '' '' \<notin> set w \<Longrightarrow>
   split_space_from cur (xs @ '' '' @ w) = split_space_from cur xs @ [w]"
  by (induction xs arbitrary: cur) (auto simp: split_space_from_free)

lemma split_space_from_join_tail:
  "\<forall>w \<in> set ws. CHR '' '' \<notin> set w \<Longrightarrow>
   split_space_from cur (c @ join_tail ws) = split_space_from cur c @ ws"
proof (induction ws arbitrary: c)
  case Nil
  then show ?case by simp
next
  case (Cons w ws)
  from Cons.prems have "\<forall>v \<in> set ws. CHR '' '' \<notin> set v" and w: "CHR '' '' \<notin> set w"
    by simp_all
  from Cons.IH [OF this(1), of "c @ '' '' @ w"]
  have "split_space_from cur ((c @ '' '' @ w) @ join_tail ws)
        = split_space_from cur (c @ '' '' @ w) @ ws" .
  with split_space_from_word [OF w, of cur c] show ?case by simp
qed

lemma split_space_splitWordsBySize:
  "\<forall>w \<in> set ws. CHR '' '' \<notin> set w \<Longrightarrow>
   concat (map split_space (splitWordsBySize ws m)) = ws"
proof (induction ws m rule: splitWordsBySize.induct)
  case (1 m)
  then show ?case by simp
next
  case (2 w ws m)
  obtain cap rest where g: "grow_caption m w ws = (cap, rest)"
    by (cases "grow_caption m w ws")
  from grow_caption_words [OF g] obtain taken
    where t: "ws = taken @ rest" "cap = w @ join_tail taken" by blast
  from t "2.prems" have free: "\<forall>v \<in> set taken. CHR '' '' \<notin> set v"
    and free_rest: "\<forall>v \<in> set rest. CHR '' '' \<notin> set v" and free_w: "CHR '' '' \<notin> set w"
    by auto
  from "2.IH" [OF g [symmetric] free_rest]
  have ih: "concat (map split_space (splitWordsBySize rest m)) = rest" .
  have "split_space cap = w # taken"
    using t free free_w
    by (simp add: split_space_def split_space_from_join_tail split_space_from_free)
  with g ih t show ?case by simp
qed

text \<open>
  Claim C10. On non-empty words without spaces \<open>splitWordsBySize\<close> loses and reorders
  nothing: the chunks joined with single spaces are the words joined with single spaces,
  the chunks split at spaces and concatenated are the words, and no chunk is empty.
\<close>

theorem splitWordsBySize_preserves_words:
  "(\<forall>w \<in> set ws. w \<noteq> [] \<and> CHR '' '' \<notin> set w) \<longrightarrow>
     join_spaces (splitWordsBySize ws m) = join_spaces ws \<and>
     concat (map split_space (splitWordsBySize ws m)) = ws \<and>
     (\<forall>c \<in> set (splitWordsBySize ws m). c \<noteq> [])"
  using join_spaces_splitWordsBySize [of ws m] split_space_splitWordsBySize [of ws m]
    splitWordsBySize_chunk_nonempty [of _ ws m]
  by blast

theorem splitWordsBySize_preserves_words_witness:
  "list_all (\<lambda>w. w \<noteq> [] \<and> CHR '' '' \<notin> set w) [''The'', ''quick'', ''brown'', ''fox''] \<and>
   splitWordsBySize [''The'', ''quick'', ''brown'', ''fox''] 15 = [''The quick'', ''brown fox''] \<and>
   join_spaces [''The quick'', ''brown fox''] = join_spaces [''The'', ''quick'', ''brown'', ''fox''] \<and>
   concat (map split_space [''The quick'', ''brown fox'']) = [''The'', ''quick'', ''brown'', ''fox''] \<and>
   ''The quick'' \<noteq> [] \<and> ''brown fox'' \<noteq> []"
  using splitWordsBySize_preserves_words [of "[''The'', ''quick'', ''brown'', ''fox'']" 15]
  by simp

subsection \<open>The time interpolator\<close>

lemma first_containing_Some:
  "first_containing p d = Some ts \<Longrightarrow> \<exists>r \<in> set d. in_range p r \<and> snd r = ts"
  by (induction p d rule: first_containing.induct) (auto simp: in_range_def split: if_splits)

lemma first_containing_None:
  "first_containing p d = None \<longleftrightarrow> (\<forall>r \<in> set d. \<not> in_range p r)"
  by (induction p d rule: first_containing.induct) (auto simp: in_range_def)

lemma closest_inv_step:
  assumes "closest_inv p f d st"
  shows "closest_inv p f (d @ [x]) (closest_preceding p f st x)"
proof -
  obtain ct md where st: "st = (ct, md)" by (cases st)
  obtain s e ts where x: "x = ((s, e), ts)" by (cases x) auto
  from assms show ?thesis
    unfolding closest_inv_def st x
    by (cases md) (auto simp: range_end_def Let_def)
qed

lemma closest_inv_foldl:
  "closest_inv p f d (foldl (closest_preceding p f) (None, None) d)"
proof (induction d rule: rev_induct)
  case Nil
  show ?case by (simp add: closest_inv_def)
next
  case (snoc x d)
  from closest_inv_step [OF snoc.IH, of x] show ?case by simp
qed

text \<open>
  Claim C5. \<open>interpolateTimeFromDict\<close> returns the requested field of a range that
  holds the position if there is one; otherwise, if some range ends at or before the
  position, the field of one whose end is nearest to it; otherwise, and on the empty
  index, nothing.
\<close>

theorem interpolateTimeFromDict_lookup:
  "((\<exists>r \<in> set d. in_range p r) \<longrightarrow>
      (\<exists>r \<in> set d. in_range p r \<and> interpolateTimeFromDict p d f = snd r f)) \<and>
   (\<not> (\<exists>r \<in> set d. in_range p r) \<and> (\<exists>r \<in> set d. range_end r \<le> p) \<longrightarrow>
      (\<exists>r \<in> set d. range_end r \<le> p \<and>
         (\<forall>r' \<in> set d. range_end r' \<le> p \<longrightarrow> p - range_end r \<le> p - range_end r') \<and>
         interpolateTimeFromDict p d f = snd r f)) \<and>
   (\<not> (\<exists>r \<in> set d. in_range p r) \<and> \<not> (\<exists>r \<in> set d. range_end r \<le> p) \<longrightarrow>
      interpolateTimeFromDict p d f = None) \<and>
   interpolateTimeFromDict p [] f = None"
proof (intro conjI impI)
  assume "\<exists>r \<in> set d. in_range p r"
  then obtain ts where ts: "first_containing p d = Some ts"
    using first_containing_None [of p d] by (cases "first_containing p d") auto
  from first_containing_Some [OF ts] obtain r where "r \<in> set d" "in_range p r" "snd r = ts"
    by blast
  moreover from this ts have "interpolateTimeFromDict p d f = snd r f"
    by (auto simp: interpolateTimeFromDict_def)
  ultimately show "\<exists>r \<in> set d. in_range p r \<and> interpolateTimeFromDict p d f = snd r f"
    by blast
next
  assume a: "\<not> (\<exists>r \<in> set d. in_range p r) \<and> (\<exists>r \<in> set d. range_end r \<le> p)"
  then have none: "first_containing p d = None"
    by (simp add: first_containing_None)
  from a have ne: "d \<noteq> []" by auto
  from none ne have res: "interpolateTimeFromDict p d f
      = fst (foldl (closest_preceding p f) (None, None) d)"
    by (simp add: interpolateTimeFromDict_def)
  from closest_inv_foldl [of p f d] a res
  show "\<exists>r \<in> set d. range_end r \<le> p \<and>
         (\<forall>r' \<in> set d. range_end r' \<le> p \<longrightarrow> p - range_end r \<le> p - range_end r') \<and>
         interpolateTimeFromDict p d f = snd r f"
    unfolding closest_inv_def by auto
next
  assume a: "\<not> (\<exists>r \<in> set d. in_range p r) \<and> \<not> (\<exists>r \<in> set d. range_end r \<le> p)"
  then have none: "first_containing p d = None"
    by (simp add: first_containing_None)
  from closest_inv_foldl [of p f d] a
  have "fst (foldl (closest_preceding p f) (None, None) d) = None"
    unfolding closest_inv_def by auto
  with none show "interpolateTimeFromDict p d f = None"
    by (simp add: interpolateTimeFromDict_def)
next
  show "interpolateTimeFromDict p [] f = None"
    by (simp add: interpolateTimeFromDict_def)
qed

theorem interpolateTimeFromDict_lookup_witness:
  "in_range 3 ((0, 5), [''start'' \<mapsto> 0, ''end'' \<mapsto> 1]) \<and>
   interpolateTimeFromDict 3 [((0, 5), [''start'' \<mapsto> 0, ''end'' \<mapsto> 1])] ''end'' = Some 1 \<and>
   \<not> in_range 10 ((0, 5), [''start'' \<mapsto> 0, ''end'' \<mapsto> 1]) \<and>
   range_end ((0, 5), [''start'' \<mapsto> 0, ''end'' \<mapsto> 1]) \<le> 10 \<and>
   interpolateTimeFromDict 10 [((0, 5), [''start'' \<mapsto> 0, ''end'' \<mapsto> 1])] ''end'' = Some 1 \<and>
   \<not> in_range 1 ((2, 5), [''start'' \<mapsto> 0, ''end'' \<mapsto> 1]) \<and>
   \<not> range_end ((2, 5), [''start'' \<mapsto> 0, ''end'' \<mapsto> 1]) \<le> 1 \<and>
   interpolateTimeFromDict 1 [((2, 5), [''start'' \<mapsto> 0, ''end'' \<mapsto> 1])] ''end'' = None"
  using interpolateTimeFromDict_lookup [of "[((0, 5), [''start'' \<mapsto> 0, ''end'' \<mapsto> 1])]" 3 "''end''"]
    interpolateTimeFromDict_lookup [of "[((0, 5), [''start'' \<mapsto> 0, ''end'' \<mapsto> 1])]" 10 "''end''"]
    interpolateTimeFromDict_lookup [of "[((2, 5), [''start'' \<mapsto> 0, ''end'' \<mapsto> 1])]" 1 "''end''"]
  by (simp add: in_range_def range_end_def)

subsection \<open>The timestamp index builder\<close>

lemma update_fresh:
  "k \<notin> fst ` set al \<Longrightarrow> AList.update k v al = al @ [(k, v)]"
  by (induction al) auto

lemma index_word_spec:
  assumes "\<forall>r \<in> set d. range_end r < index"
  shows "index_word (index, d) w =
           (case usable_word w of
              None \<Rightarrow> (index, d)
            | Some (t, s, e) \<Rightarrow> (index + int (length t) + 1, d @ spec_index_from index [(t, s, e)]))"
proof (cases w)
  case NotADict
  then show ?thesis by simp
next
  case (WordDict wd)
  have fresh: "(index, index + int (length t)) \<notin> fst ` set d" if "t \<noteq> []" for t :: string
  proof
    assume "(index, index + int (length t)) \<in> fst ` set d"
    then obtain r where "r \<in> set d" "fst r = (index, index + int (length t))" by auto
    with assms have "index + int (length t) < index" by (auto simp: range_end_def)
    then show False by simp
  qed
  show ?thesis
    unfolding WordDict
    by (auto simp: Let_def update_fresh fresh split: option.splits)
qed

lemma spec_cursor_after_mono: "cursor \<le> spec_cursor_after cursor ws"
proof (induction ws arbitrary: cursor)
  case Nil
  show ?case by simp
next
  case (Cons w ws)
  obtain t s e where w: "w = (t, s, e)" by (cases w)
  from Cons [of "cursor + int (length t) + 1"] show ?case by (simp add: w)
qed

lemma spec_index_from_ends:
  "r \<in> set (spec_index_from cursor ws) \<Longrightarrow> range_end r < spec_cursor_after cursor ws"
proof (induction ws arbitrary: cursor)
  case Nil
  then show ?case by simp
next
  case (Cons w ws)
  obtain t s e where w: "w = (t, s, e)" by (cases w)
  from Cons.prems w
  consider "r = ((cursor, cursor + int (length t)), [''start'' \<mapsto> s, ''end'' \<mapsto> e])"
    | "r \<in> set (spec_index_from (cursor + int (length t) + 1) ws)" by auto
  then show ?case
  proof cases
    case 1
    with spec_cursor_after_mono [of "cursor + int (length t) + 1" ws] show ?thesis
      by (simp add: w range_end_def)
  next
    case 2
    from Cons.IH [OF this] show ?thesis by (simp add: w)
  qed
qed

lemma spec_index_from_append:
  "spec_index_from cursor (xs @ ys)
     = spec_index_from cursor xs @ spec_index_from (spec_cursor_after cursor xs) ys"
  by (induction cursor xs rule: spec_index_from.induct) auto

lemma spec_cursor_after_append:
  "spec_cursor_after cursor (xs @ ys) = spec_cursor_after (spec_cursor_after cursor xs) ys"
  by (induction cursor xs rule: spec_cursor_after.induct) auto

lemma foldl_index_word:
  "\<forall>r \<in> set d. range_end r < index \<Longrightarrow>
   foldl index_word (index, d) ws
     = (spec_cursor_after index (List.map_filter usable_word ws),
        d @ spec_index_from index (List.map_filter usable_word ws))"
proof (induction ws arbitrary: index d)
  case Nil
  show ?case by (simp add: List.map_filter_simps)
next
  case (Cons w ws)
  show ?case
  proof (cases "usable_word w")
    case None
    with index_word_spec [OF Cons.prems, of w] Cons.IH [OF Cons.prems] show ?thesis
      by (simp add: List.map_filter_simps)
  next
    case (Some u)
    obtain t s e where u: "u = (t, s, e)" by (cases u)
    let ?d = "d @ spec_index_from index [(t, s, e)]"
    let ?i = "index + int (length t) + 1"
    from Cons.prems have "\<forall>r \<in> set ?d. range_end r < ?i"
      by (auto simp: range_end_def)
    from Cons.IH [OF this] Some u index_word_spec [OF Cons.prems, of w] show ?thesis
      by (simp add: List.map_filter_simps)
  qed
qed

lemma map_filter_append:
  "List.map_filter f (xs @ ys) = List.map_filter f xs @ List.map_filter f ys"
  by (simp add: List.map_filter_def)

lemma index_segment_spec:
  "\<forall>r \<in> set d. range_end r < index \<Longrightarrow>
   index_segment (index, d) seg
     = (spec_cursor_after index (List.map_filter usable_word (segment_words seg)),
        d @ spec_index_from index (List.map_filter usable_word (segment_words seg)))"
  using foldl_index_word [of d index]
  by (auto simp: index_segment_def segment_words_def List.map_filter_simps split: option.splits)

lemma foldl_index_segment:
  "\<forall>r \<in> set d. range_end r < index \<Longrightarrow>
   foldl index_segment (index, d) segs
     = (spec_cursor_after index (List.map_filter usable_word (concat (map segment_words segs))),
        d @ spec_index_from index (List.map_filter usable_word (concat (map segment_words segs))))"
proof (induction segs arbitrary: index d)
  case Nil
  show ?case by (simp add: List.map_filter_simps)
next
  case (Cons seg segs)
  let ?us = "List.map_filter usable_word (segment_words seg)"
  let ?d = "d @ spec_index_from index ?us"
  let ?i = "spec_cursor_after index ?us"
  have "\<forall>r \<in> set ?d. range_end r < ?i"
    using Cons.prems spec_cursor_after_mono [of index ?us] spec_index_from_ends [of _ index ?us]
    by fastforce
  from Cons.IH [OF this] index_segment_spec [OF Cons.prems, of seg] show ?case
    by (simp add: map_filter_append spec_index_from_append spec_cursor_after_append)
qed

lemma getTimestampMapping_spec:
  "getTimestampMapping wa = spec_index_from 0 (usable_words wa)"
  using foldl_index_segment [of "[]" 0]
  by (simp add: getTimestampMapping_def usable_words_def split: option.splits)

lemma getTimestampMapping_hello_world:
  "getTimestampMapping (hello_world s1 e1 s2 e2)
     = [((0, 5), [''start'' \<mapsto> s1, ''end'' \<mapsto> e1]), ((6, 11), [''start'' \<mapsto> s2, ''end'' \<mapsto> e2])]"
proof -
  have "strip ''Hello'' = ''Hello''" and "strip ''world'' = ''world''"
    by (simp_all add: strip_def is_space_def)
  then show ?thesis
    by (simp add: getTimestampMapping_def hello_world_def index_segment_def word_text_of_def)
qed

text \<open>
  Claim C6. The index that \<open>getTimestampMapping\<close> builds is the specification's: each
  usable word gets the range from the cursor to the cursor plus the length of its text,
  with its start and end times, and the cursor advances by that length plus one. For the
  timed words \<open>Hello\<close> and \<open>world\<close> the ranges are \<open>[0, 5)\<close> and \<open>[6, 11)\<close>.
\<close>

theorem getTimestampMapping_offsets:
  "getTimestampMapping wa = spec_index_from 0 (usable_words wa) \<and>
   getTimestampMapping (hello_world s1 e1 s2 e2)
     = [((0, 5), [''start'' \<mapsto> s1, ''end'' \<mapsto> e1]), ((6, 11), [''start'' \<mapsto> s2, ''end'' \<mapsto> e2])]"
  using getTimestampMapping_spec [of wa] getTimestampMapping_hello_world [of s1 e1 s2 e2]
  by (rule conjI)

subsection \<open>The caption assembler\<close>

lemma foldl_preserves:
  assumes "P a" and "\<And>a x. P a \<Longrightarrow> P (f a x)"
  shows "P (foldl f a xs)"
  using assms(1) by (induction xs arbitrary: a) (auto intro: assms(2))

lemma getCaptionsWithTime_blank:
  "wa_text wa = None \<or> (\<exists>t. wa_text wa = Some t \<and> strip t = []) \<Longrightarrow>
   getCaptionsWithTime wa m cp = Inr []"
  by (auto simp: getCaptionsWithTime_def getCaptionsWithTime_try_def split: sum.splits option.splits)

lemma getCaptionsWithTime_estimated:
  assumes "wa_text wa = Some t" and "strip t \<noteq> []" and "getTimestampMapping wa = []"
  shows "getCaptionsWithTime wa m cp =
           Inr (foldl (estimated_step cp
                  (if caption_chunks (strip t) m cp \<noteq> []
                   then total_duration_of wa / real (length (caption_chunks (strip t) m cp))
                   else 1))
                [] (enumerate 0 (caption_chunks (strip t) m cp)))"
proof -
  from assms(2) have "t \<noteq> []" by (auto simp: strip_def)
  with assms show ?thesis
    by (simp add: getCaptionsWithTime_def getCaptionsWithTime_try_def Let_def)
qed

lemma getCaptionsWithTime_timed:
  assumes "wa_text wa = Some t" and "strip t \<noteq> []" and "getTimestampMapping wa \<noteq> []"
  shows "getCaptionsWithTime wa m cp =
           Inr (snd (snd (foldl (timed_step cp (getTimestampMapping wa)) (0, 0, [])
                            (enumerate 0 (caption_chunks (strip t) m cp)))))"
proof -
  from assms(2) have "t \<noteq> []" by (auto simp: strip_def)
  with assms show ?thesis
    by (simp add: getCaptionsWithTime_def getCaptionsWithTime_try_def Let_def split: prod.splits)
qed

text \<open>
  Claim C7. When the text is absent, empty or only whitespace, \<open>getCaptionsWithTime\<close>
  returns the empty sequence, whatever the segments hold; and on every input it returns
  a sequence: every exception of its body ends in the handler.
\<close>

theorem getCaptionsWithTime_blank_text:
  "(wa_text wa = None \<or> (\<exists>t. wa_text wa = Some t \<and> strip t = []) \<longrightarrow>
      getCaptionsWithTime wa m cp = Inr []) \<and>
   (\<exists>r. getCaptionsWithTime wa m cp = Inr r)"
  by (auto simp: getCaptionsWithTime_def getCaptionsWithTime_try_def split: sum.splits option.splits)

lemma strip_blank: "strip ''  '' = []"
  by code_simp

lemma blank_captions:
  "getCaptionsWithTime \<lparr>wa_text = None, wa_segments = None\<rparr> 15 False = Inr []"
  "getCaptionsWithTime \<lparr>wa_text = Some [], wa_segments = None\<rparr> 15 False = Inr []"
  "getCaptionsWithTime ((hello_world 0 1 1 2)\<lparr>wa_text := Some ''  ''\<rparr>) 15 False = Inr []"
  by code_simp+

theorem getCaptionsWithTime_blank_text_witness:
  "wa_text \<lparr>wa_text = None, wa_segments = None\<rparr> = None \<and>
   getCaptionsWithTime_try \<lparr>wa_text = None, wa_segments = None\<rparr> 15 False
     = Inl (ValueError ''Invalid whisper_analysis'') \<and>
   getCaptionsWithTime \<lparr>wa_text = None, wa_segments = None\<rparr> 15 False = Inr [] \<and>
   wa_text \<lparr>wa_text = Some [], wa_segments = None\<rparr> = Some [] \<and> strip [] = [] \<and>
   getCaptionsWithTime \<lparr>wa_text = Some [], wa_segments = None\<rparr> 15 False = Inr [] \<and>
   wa_text ((hello_world 0 1 1 2)\<lparr>wa_text := Some ''  ''\<rparr>) = Some ''  '' \<and> strip ''  '' = [] \<and>
   getCaptionsWithTime ((hello_world 0 1 1 2)\<lparr>wa_text := Some ''  ''\<rparr>) 15 False = Inr []"
  using getCaptionsWithTime_blank_text [of "\<lparr>wa_text = None, wa_segments = None\<rparr>" 15 False]
    getCaptionsWithTime_blank_text [of "\<lparr>wa_text = Some [], wa_segments = None\<rparr>" 15 False]
    getCaptionsWithTime_blank_text [of "(hello_world 0 1 1 2)\<lparr>wa_text := Some ''  ''\<rparr>" 15 False]
  by (simp add: blank_captions strip_blank) (simp add: strip_def getCaptionsWithTime_try_def)

lemma dropWhile_keep: "\<not> P (hd xs) \<Longrightarrow> dropWhile P xs = xs"
  by (cases xs) auto

lemma strip_strip: "strip (strip s) = strip s"
proof -
  define u where "u = dropWhile is_space s"
  define v where "v = dropWhile is_space (rev u)"
  have s: "strip s = rev v" by (simp only: strip_def u_def v_def)
  show ?thesis
  proof (cases "v = []")
    case True
    with s have "strip s = []" by simp
    moreover have "strip [] = []" by (simp add: strip_def)
    ultimately show ?thesis by simp
  next
    case False
    then have hd_v: "\<not> is_space (hd v)" unfolding v_def by (rule hd_dropWhile)
    from False have u: "u \<noteq> []" unfolding v_def by (cases u) simp_all
    then have hd_u: "\<not> is_space (hd u)" unfolding u_def by (rule hd_dropWhile)
    have "rev u = takeWhile is_space (rev u) @ v"
      unfolding v_def by (rule takeWhile_dropWhile_id [symmetric])
    with False have "last v = last (rev u)" by (metis last_appendR)
    also from u have "\<dots> = hd u" by (simp add: last_rev)
    finally have "last v = hd u" .
    with False hd_u have "\<not> is_space (hd (rev v))" by (simp add: hd_rev)
    then have a: "dropWhile is_space (rev v) = rev v" by (rule dropWhile_keep)
    from hd_v have b: "dropWhile is_space v = v" by (rule dropWhile_keep)
    have "strip (rev v) = rev (dropWhile is_space (rev (dropWhile is_space (rev v))))"
      by (simp only: strip_def)
    also have "\<dots> = rev (dropWhile is_space (rev (rev v)))" by (simp only: a)
    also have "\<dots> = rev v" by (simp only: rev_rev_ident b)
    finally show ?thesis by (simp only: s)
  qed
qed

lemma set_strip: "set (strip s) \<subseteq> set s"
proof
  fix c assume "c \<in> set (strip s)"
  then have "c \<in> set (dropWhile is_space (rev (dropWhile is_space s)))"
    by (simp add: strip_def)
  then have "c \<in> set (rev (dropWhile is_space s))" by (rule set_dropWhileD)
  then have "c \<in> set (dropWhile is_space s)" by simp
  then show "c \<in> set s" by (rule set_dropWhileD)
qed

lemma cleanWord_fixed: "set t \<subseteq> set (cleanWord s) \<Longrightarrow> cleanWord t = t"
  by (auto simp: cleanWord_def filter_id_conv)

lemma cleanWord_strip_cleanWord: "cleanWord (strip (cleanWord s)) = strip (cleanWord s)"
  by (rule cleanWord_fixed [OF set_strip])

lemma emitted_text_stable:
  "strip (emitted_text cp x) = emitted_text cp x \<and>
   (\<not> cp \<longrightarrow> cleanWord (emitted_text cp x) = emitted_text cp x)"
  by (simp add: emitted_text_def strip_strip cleanWord_strip_cleanWord)

lemma estimated_step_text:
  assumes "\<forall>e \<in> set ps. snd e \<noteq> [] \<and> strip (snd e) = snd e \<and> (\<not> cp \<longrightarrow> cleanWord (snd e) = snd e)"
  shows "\<forall>e \<in> set (estimated_step cp dpc ps ic).
           snd e \<noteq> [] \<and> strip (snd e) = snd e \<and> (\<not> cp \<longrightarrow> cleanWord (snd e) = snd e)"
proof -
  obtain i c where ic: "ic = (i, c)" by (cases ic)
  have "estimated_step cp dpc ps ic = ps \<or>
        (emitted_text cp c \<noteq> [] \<and>
         (\<exists>iv. estimated_step cp dpc ps ic = ps @ [(iv, emitted_text cp c)]))"
    by (simp add: estimated_step_def ic Let_def emitted_text_def)
  with assms emitted_text_stable [of cp c] show ?thesis by auto
qed

lemma timed_step_text:
  assumes "\<forall>e \<in> set (snd (snd st)).
             snd e \<noteq> [] \<and> strip (snd e) = snd e \<and> (\<not> cp \<longrightarrow> cleanWord (snd e) = snd e)"
  shows "\<forall>e \<in> set (snd (snd (timed_step cp d st ic))).
           snd e \<noteq> [] \<and> strip (snd e) = snd e \<and> (\<not> cp \<longrightarrow> cleanWord (snd e) = snd e)"
proof -
  obtain tp s ps where st: "st = (tp, s, ps)" by (cases st)
  obtain i c where ic: "ic = (i, c)" by (cases ic)
  have "snd (snd (timed_step cp d st ic)) = ps \<or>
        (emitted_text cp (strip c) \<noteq> [] \<and>
         (\<exists>iv. snd (snd (timed_step cp d st ic)) = ps @ [(iv, emitted_text cp (strip c))]))"
    by (simp add: timed_step_def st ic Let_def emitted_text_def split: option.splits)
  with assms emitted_text_stable [of cp "strip c"] show ?thesis by (auto simp: st)
qed

text \<open>
  Claim C9. On every input, in both modes and on both branches, every entry that
  \<open>getCaptionsWithTime\<close> returns has a text that is not empty; the text is already
  stripped, and, unless punctuation is kept, already cleaned, so that cleaning and
  stripping it again leaves it as it is.
\<close>

theorem getCaptionsWithTime_text_nonempty:
  "\<exists>r. getCaptionsWithTime wa m cp = Inr r \<and>
       (\<forall>e \<in> set r. snd e \<noteq> [] \<and> strip (snd e) = snd e \<and>
                      (\<not> cp \<longrightarrow> cleanWord (snd e) = snd e))"
proof -
  let ?P = "\<lambda>ps :: caption list. \<forall>e \<in> set ps.
    snd e \<noteq> [] \<and> strip (snd e) = snd e \<and> (\<not> cp \<longrightarrow> cleanWord (snd e) = snd e)"
  have est: "?P (foldl (estimated_step cp dpc) [] xs)" for dpc xs
    by (rule foldl_preserves [where P = ?P]) (simp, rule estimated_step_text)
  have tim: "?P (snd (snd (foldl (timed_step cp d) (0, 0, []) xs)))" for d xs
    by (rule foldl_preserves [where P = "\<lambda>st. ?P (snd (snd st))"])
       (simp, rule timed_step_text)
  show ?thesis
  proof (cases "wa_text wa = None \<or> (\<exists>t. wa_text wa = Some t \<and> strip t = [])")
    case True
    from getCaptionsWithTime_blank [OF this] show ?thesis by simp
  next
    case False
    then obtain t where t: "wa_text wa = Some t" "strip t \<noteq> []" by auto
    show ?thesis
    proof (cases "getTimestampMapping wa = []")
      case True
      from getCaptionsWithTime_estimated [OF t True, of m cp] est show ?thesis by simp
    next
      case False
      from getCaptionsWithTime_timed [OF t False, of m cp] tim show ?thesis by simp
    qed
  qed
qed

lemma hello_world_captions:
  "getCaptionsWithTime (hello_world (1/5) (1/2) (9/10) (13/10)) 5 False
     = Inr [((0, 1/2), ''Hello''), ((1/2, 13/10), ''world'')]"
  by code_simp

theorem getCaptionsWithTime_text_nonempty_witness:
  "getCaptionsWithTime (hello_world (1/5) (1/2) (9/10) (13/10)) 5 False
     = Inr [((0, 1/2), ''Hello''), ((1/2, 13/10), ''world'')] \<and>
   ''Hello'' \<noteq> [] \<and> strip ''Hello'' = ''Hello'' \<and> cleanWord ''Hello'' = ''Hello'' \<and>
   ''world'' \<noteq> [] \<and> strip ''world'' = ''world'' \<and> cleanWord ''world'' = ''world''"
  using getCaptionsWithTime_text_nonempty [of "hello_world (1/5) (1/2) (9/10) (13/10)" 5 False]
  by (simp add: hello_world_captions)

lemma chain_snoc: "chain s ps e \<Longrightarrow> chain s (ps @ [((e, t), x)]) t"
  by (induction s ps e rule: chain.induct) auto

lemma chain_hd: "chain s ps e \<Longrightarrow> ps \<noteq> [] \<Longrightarrow> fst (fst (hd ps)) = s"
  by (induction s ps e rule: chain.induct) auto

lemma chain_nth:
  "chain s ps e \<Longrightarrow> Suc i < length ps \<Longrightarrow> snd (fst (ps ! i)) = fst (fst (ps ! Suc i))"
proof (induction s ps e arbitrary: i rule: chain.induct)
  case (1 s e)
  then show ?case by simp
next
  case (2 s a b caption_text ps e)
  show ?case
  proof (cases i)
    case 0
    with "2.prems" chain_hd [of b ps e] show ?thesis
      by (cases ps) auto
  next
    case (Suc j)
    with "2.prems" "2.IH" [of j] show ?thesis by simp
  qed
qed

lemma timed_step_chain:
  assumes "chain 0 (snd (snd st)) (fst (snd st))"
  shows "chain 0 (snd (snd (timed_step cp d st ic))) (fst (snd (timed_step cp d st ic)))"
proof -
  obtain tp st0 ps where st: "st = (tp, st0, ps)" by (cases st)
  obtain i c where ic: "ic = (i, c)" by (cases ic)
  from assms show ?thesis
    unfolding st ic
    by (auto simp: timed_step_def Let_def chain_snoc split: option.splits)
qed

text \<open>
  Claim C3. On the timestamp branch (the text is not blank and the index is not empty) the
  entries are contiguous: the first starts at 0 and each entry starts where the entry
  before it ends.
\<close>

theorem getCaptionsWithTime_contiguous:
  "wa_text wa = Some t \<and> strip t \<noteq> [] \<and> getTimestampMapping wa \<noteq> [] \<longrightarrow>
     (\<exists>r. getCaptionsWithTime wa m cp = Inr r \<and>
          (r \<noteq> [] \<longrightarrow> fst (fst (hd r)) = 0) \<and>
          (\<forall>i. Suc i < length r \<longrightarrow> snd (fst (r ! i)) = fst (fst (r ! Suc i))))"
proof
  assume a: "wa_text wa = Some t \<and> strip t \<noteq> [] \<and> getTimestampMapping wa \<noteq> []"
  let ?st = "foldl (timed_step cp (getTimestampMapping wa)) (0, 0, [])
               (enumerate 0 (caption_chunks (strip t) m cp))"
  have "chain 0 (snd (snd ?st)) (fst (snd ?st))"
    by (rule foldl_preserves [where P = "\<lambda>st. chain 0 (snd (snd st)) (fst (snd st))"])
       (simp_all add: timed_step_chain)
  with chain_hd [of 0 "snd (snd ?st)"] chain_nth [of 0 "snd (snd ?st)"]
  have "(snd (snd ?st) \<noteq> [] \<longrightarrow> fst (fst (hd (snd (snd ?st)))) = 0) \<and>
        (\<forall>i. Suc i < length (snd (snd ?st)) \<longrightarrow>
             snd (fst (snd (snd ?st) ! i)) = fst (fst (snd (snd ?st) ! Suc i)))"
    by blast
  with a getCaptionsWithTime_timed [of wa t m cp]
  show "\<exists>r. getCaptionsWithTime wa m cp = Inr r \<and>
          (r \<noteq> [] \<longrightarrow> fst (fst (hd r)) = 0) \<and>
          (\<forall>i. Suc i < length r \<longrightarrow> snd (fst (r ! i)) = fst (fst (r ! Suc i)))"
    by simp
qed

lemma strip_Hello_world: "strip ''Hello world'' = ''Hello world''"
  by code_simp

theorem getCaptionsWithTime_contiguous_witness:
  "wa_text (hello_world (1/5) (1/2) (9/10) (13/10)) = Some ''Hello world'' \<and>
   strip ''Hello world'' \<noteq> [] \<and>
   getTimestampMapping (hello_world (1/5) (1/2) (9/10) (13/10)) \<noteq> [] \<and>
   getCaptionsWithTime (hello_world (1/5) (1/2) (9/10) (13/10)) 5 False
     = Inr [((0, 1/2), ''Hello''), ((1/2, 13/10), ''world'')] \<and>
   fst (fst (hd [((0 :: real, 1/2 :: real), ''Hello''), ((1/2, 13/10), ''world'')])) = 0 \<and>
   snd (fst ([((0 :: real, 1/2 :: real), ''Hello''), ((1/2, 13/10), ''world'')] ! 0))
     = fst (fst ([((0 :: real, 1/2 :: real), ''Hello''), ((1/2, 13/10), ''world'')] ! Suc 0))"
  using getCaptionsWithTime_contiguous
          [of "hello_world (1/5) (1/2) (9/10) (13/10)" "''Hello world''" 5 False]
  by (simp add: hello_world_captions getTimestampMapping_hello_world strip_Hello_world)
     (simp add: hello_world_def)

subsection \<open>The estimated-timing branch\<close>

lemma strip_empty_iff: "strip s = [] \<longleftrightarrow> (\<forall>c \<in> set s. is_space c)"
proof
  assume "strip s = []"
  then have e: "dropWhile is_space (rev (dropWhile is_space s)) = []"
    by (simp add: strip_def)
  show "\<forall>c \<in> set s. is_space c"
  proof (cases "dropWhile is_space s = []")
    case True
    then show ?thesis by (simp add: dropWhile_eq_Nil_conv)
  next
    case False
    then have "\<not> is_space (hd (dropWhile is_space s))" by (rule hd_dropWhile)
    moreover from False have "hd (dropWhile is_space s) \<in> set (rev (dropWhile is_space s))"
      by simp
    ultimately show ?thesis using e by (auto simp: dropWhile_eq_Nil_conv)
  qed
next
  assume "\<forall>c \<in> set s. is_space c"
  then have d: "dropWhile is_space s = []" by (simp add: dropWhile_eq_Nil_conv)
  show "strip s = []" unfolding strip_def d by simp
qed

lemma strip_has_text:
  assumes "strip s \<noteq> []"
  shows "\<exists>c \<in> set (strip s). \<not> is_space c"
proof -
  let ?v = "dropWhile is_space (rev (dropWhile is_space s))"
  from assms have "?v \<noteq> []" by (simp add: strip_def)
  then have "\<not> is_space (hd ?v)" and "hd ?v \<in> set ?v"
    by (simp_all add: hd_dropWhile)
  then show ?thesis by (auto simp: strip_def)
qed

lemma emitted_text_guard:
  "emitted_text cp c \<noteq> [] \<Longrightarrow> strip c \<noteq> []"
  by (auto simp: emitted_text_def strip_empty_iff cleanWord_def split: if_splits)

lemma split_from_nonempty:
  "cur \<noteq> [] \<or> (\<exists>c \<in> set s. \<not> is_space c) \<Longrightarrow> split_from cur s \<noteq> []"
  by (induction s arbitrary: cur) auto

lemma splitWordsBySize_nonempty: "ws \<noteq> [] \<Longrightarrow> splitWordsBySize ws m \<noteq> []"
  by (cases ws) (auto split: prod.splits)

lemma re_split_from_keeps_text:
  "(\<exists>c \<in> set cur \<union> set s. \<not> is_space c) \<Longrightarrow>
   \<exists>piece \<in> set (re_split_from in_sep prev cur s). \<exists>c \<in> set piece. \<not> is_space c"
proof (induction s arbitrary: in_sep prev cur)
  case Nil
  then show ?case by simp
next
  case (Cons x s)
  have sp: "is_space CHR '' ''" by (simp add: is_space_def)
  show ?case
  proof (cases "x = CHR '' ''")
    case True
    with Cons.prems sp have rest: "\<exists>c \<in> set cur \<union> set s. \<not> is_space c" by auto
    show ?thesis
    proof (cases in_sep)
      case True
      with \<open>x = CHR '' ''\<close> Cons.IH [OF rest, of True "Some x"] show ?thesis by simp
    next
      case False
      show ?thesis
      proof (cases "prev \<in> {Some CHR ''.'', Some CHR ''!'', Some CHR ''?''}")
        case t: True
        show ?thesis
        proof (cases "\<exists>c \<in> set cur. \<not> is_space c")
          case True
          with t False \<open>x = CHR '' ''\<close> show ?thesis by auto
        next
          case nocur: False
          with rest have "\<exists>c \<in> set [] \<union> set s. \<not> is_space c" by auto
          from Cons.IH [OF this, of True "Some x"] t False \<open>x = CHR '' ''\<close> show ?thesis
            by auto
        qed
      next
        case f: False
        from rest have "\<exists>c \<in> set (cur @ [x]) \<union> set s. \<not> is_space c" by auto
        from Cons.IH [OF this, of False "Some x"] f False \<open>x = CHR '' ''\<close> show ?thesis
          by auto
      qed
    qed
  next
    case False
    from Cons.prems have "\<exists>c \<in> set (cur @ [x]) \<union> set s. \<not> is_space c" by auto
    from Cons.IH [OF this, of False "Some x"] False show ?thesis by auto
  qed
qed

lemma caption_chunks_nonempty:
  assumes "strip t \<noteq> []"
  shows "caption_chunks (strip t) m cp \<noteq> []"
proof (cases cp)
  case False
  from strip_has_text [OF assms] have "split (strip t) \<noteq> []"
    by (simp add: split_def split_from_nonempty)
  with False show ?thesis by (simp add: caption_chunks_def splitWordsBySize_nonempty)
next
  case True
  from strip_has_text [OF assms]
  obtain piece where p: "piece \<in> set (re_split_sentences (strip t))"
    and "\<exists>c \<in> set piece. \<not> is_space c"
    using re_split_from_keeps_text [of "[]" "strip t" False None]
    by (auto simp: re_split_sentences_def)
  then have "splitWordsBySize (split piece) m \<noteq> []"
    by (simp add: split_def split_from_nonempty splitWordsBySize_nonempty)
  with p True show ?thesis by (auto simp: caption_chunks_def)
qed

lemma estimated_step_emits:
  "emitted_text cp c \<noteq> [] \<Longrightarrow> estimated_step cp dpc ps (i, c) = ps @ [slice dpc cp (i, c)]"
  using emitted_text_guard [of cp c]
  by (simp add: estimated_step_def slice_def Let_def emitted_text_def)

lemma foldl_estimated_step_all:
  "\<forall>c \<in> set ws. emitted_text cp c \<noteq> [] \<Longrightarrow>
   foldl (estimated_step cp dpc) ps (enumerate k ws) = ps @ map (slice dpc cp) (enumerate k ws)"
  by (induction ws arbitrary: k ps) (simp_all add: estimated_step_emits)

text \<open>
  Claim C1, amended. When the text is not blank, the index is empty and every chunk keeps
  a non-empty text when emitted, \<open>getCaptionsWithTime\<close> returns one entry for each chunk,
  at least one, in order; the interval of entry \<open>i\<close> is
  \<open>[i * width, (i + 1) * width)\<close> with \<open>width\<close> the total duration divided by the number
  of chunks, so that the intervals partition \<open>[0, total duration)\<close> into slices of equal
  width. The total duration is the last segment's \<open>end\<close> when that is present and not
  zero, and 10 otherwise.
\<close>

theorem getCaptionsWithTime_estimated_slices:
  "wa_text wa = Some t \<and> strip t \<noteq> [] \<and> getTimestampMapping wa = [] \<and>
   (\<forall>c \<in> set (caption_chunks (strip t) m cp). emitted_text cp c \<noteq> []) \<longrightarrow>
     (\<exists>r. getCaptionsWithTime wa m cp = Inr r \<and> r \<noteq> [] \<and>
          length r = length (caption_chunks (strip t) m cp) \<and>
          (\<forall>i < length r.
             r ! i = ((real i * (total_duration_of wa / real (length r)),
                       real (i + 1) * (total_duration_of wa / real (length r))),
                      emitted_text cp (caption_chunks (strip t) m cp ! i))) \<and>
          real (length r) * (total_duration_of wa / real (length r)) = total_duration_of wa)"
proof
  let ?ws = "caption_chunks (strip t) m cp"
  let ?w = "total_duration_of wa / real (length ?ws)"
  let ?r = "map (slice ?w cp) (enumerate 0 ?ws)"
  assume a: "wa_text wa = Some t \<and> strip t \<noteq> [] \<and> getTimestampMapping wa = [] \<and>
    (\<forall>c \<in> set ?ws. emitted_text cp c \<noteq> [])"
  then have ne: "?ws \<noteq> []" by (simp add: caption_chunks_nonempty)
  from a ne have r: "getCaptionsWithTime wa m cp = Inr ?r"
    using getCaptionsWithTime_estimated [of wa t m cp] foldl_estimated_step_all [of ?ws cp ?w "[]" 0]
    by simp
  have len: "length ?r = length ?ws" by simp
  have nth: "?r ! i = ((real i * ?w, real (i + 1) * ?w), emitted_text cp (?ws ! i))"
    if "i < length ?ws" for i
    using that by (simp add: slice_def nth_enumerate_eq)
  from ne have total: "real (length ?ws) * ?w = total_duration_of wa" by simp
  from ne len have "?r \<noteq> []" by (metis length_0_conv)
  with r len nth total
  show "\<exists>r. getCaptionsWithTime wa m cp = Inr r \<and> r \<noteq> [] \<and>
          length r = length ?ws \<and>
          (\<forall>i < length r.
             r ! i = ((real i * (total_duration_of wa / real (length r)),
                       real (i + 1) * (total_duration_of wa / real (length r))),
                      emitted_text cp (?ws ! i))) \<and>
          real (length r) * (total_duration_of wa / real (length r)) = total_duration_of wa"
    by (intro exI [of _ ?r]) simp
qed

lemma untimed_talk_facts:
  "strip ''Hello there, wonderful world!'' = ''Hello there, wonderful world!''"
  "caption_chunks ''Hello there, wonderful world!'' 15 False
     = [''Hello there,'', ''wonderful'', ''world!'']"
  "emitted_text False ''Hello there,'' = ''Hello there''"
  "emitted_text False ''wonderful'' = ''wonderful''"
  "emitted_text False ''world!'' = ''world''"
  "total_duration_of untimed_talk = 6"
  "getCaptionsWithTime untimed_talk 15 False
     = Inr [((0, 2), ''Hello there''), ((2, 4), ''wonderful''), ((4, 6), ''world'')]"
  by code_simp+

lemma untimed_talk_index: "getTimestampMapping untimed_talk = []"
  by (simp add: getTimestampMapping_def untimed_talk_def index_segment_def)

theorem getCaptionsWithTime_estimated_slices_witness:
  "wa_text untimed_talk = Some ''Hello there, wonderful world!'' \<and>
   strip ''Hello there, wonderful world!'' \<noteq> [] \<and>
   getTimestampMapping untimed_talk = [] \<and>
   caption_chunks (strip ''Hello there, wonderful world!'') 15 False
     = [''Hello there,'', ''wonderful'', ''world!''] \<and>
   emitted_text False ''Hello there,'' \<noteq> [] \<and> emitted_text False ''wonderful'' \<noteq> [] \<and>
   emitted_text False ''world!'' \<noteq> [] \<and>
   total_duration_of untimed_talk = 6 \<and>
   getCaptionsWithTime untimed_talk 15 False
     = Inr [((0, 2), ''Hello there''), ((2, 4), ''wonderful''), ((4, 6), ''world'')]"
  using getCaptionsWithTime_estimated_slices
          [of untimed_talk "''Hello there, wonderful world!''" 15 False]
  by (simp add: untimed_talk_facts untimed_talk_index) (simp add: untimed_talk_def)

text \<open>
  The claim as first stated fails on a text of punctuation only: the single chunk is
  cleaned to the empty text and skipped, and the result is empty.
\<close>

lemma dots_only_captions: "getCaptionsWithTime dots_only 15 False = Inr []"
  by code_simp

lemma dots_only_index: "getTimestampMapping dots_only = []"
  by (simp add: getTimestampMapping_def dots_only_def index_segment_def)

theorem getCaptionsWithTime_estimated_counterexample:
  "wa_text dots_only = Some ''...'' \<and> ''...'' \<noteq> [] \<and>
   getTimestampMapping dots_only = [] \<and>
   getCaptionsWithTime dots_only 15 False = Inr []"
  by (simp add: dots_only_captions dots_only_index) (simp add: dots_only_def)

subsection \<open>Order of the emitted intervals\<close>

lemma interpolateTimeFromDict_cases:
  obtains (inside) r where "r \<in> set d" and "in_range p r"
      and "interpolateTimeFromDict p d f = snd r f"
  | (before) r where "\<forall>r' \<in> set d. \<not> in_range p r'" and "r \<in> set d" and "range_end r \<le> p"
      and "\<forall>r' \<in> set d. range_end r' \<le> p \<longrightarrow> range_end r' \<le> range_end r"
      and "interpolateTimeFromDict p d f = snd r f"
  | (nothing) "\<forall>r \<in> set d. \<not> in_range p r" and "\<forall>r \<in> set d. \<not> range_end r \<le> p"
      and "interpolateTimeFromDict p d f = None"
proof (cases "first_containing p d")
  case (Some ts)
  from first_containing_Some [OF Some] obtain r
    where r: "r \<in> set d" "in_range p r" "snd r = ts" by blast
  with Some have "interpolateTimeFromDict p d f = snd r f"
    by (auto simp: interpolateTimeFromDict_def)
  with r(1,2) show ?thesis by (rule inside)
next
  case None
  then have out: "\<forall>r \<in> set d. \<not> in_range p r" by (simp add: first_containing_None)
  let ?st = "foldl (closest_preceding p f) (None, None) d"
  have res: "interpolateTimeFromDict p d f = fst ?st"
    using None by (cases d) (simp_all add: interpolateTimeFromDict_def)
  from closest_inv_foldl [of p f d]
  have "(fst ?st = None \<and> (\<forall>r \<in> set d. \<not> range_end r \<le> p)) \<or>
        (\<exists>r \<in> set d. range_end r \<le> p \<and> fst ?st = snd r f \<and>
           (\<forall>r' \<in> set d. range_end r' \<le> p \<longrightarrow> range_end r' \<le> range_end r))"
    unfolding closest_inv_def by fastforce
  then show ?thesis
  proof (elim disjE conjE bexE)
    assume a: "fst ?st = None" and b: "\<forall>r \<in> set d. \<not> range_end r \<le> p"
    from res a have "interpolateTimeFromDict p d f = None" by simp
    with out b show ?thesis by (rule nothing)
  next
    fix r
    assume a: "r \<in> set d" "range_end r \<le> p" and b: "fst ?st = snd r f"
      and c: "\<forall>r' \<in> set d. range_end r' \<le> p \<longrightarrow> range_end r' \<le> range_end r"
    from res b have "interpolateTimeFromDict p d f = snd r f" by simp
    with out a c show ?thesis by (rule before)
  qed
qed

lemma spec_index_from_starts:
  "r \<in> set (spec_index_from cursor ws) \<Longrightarrow> cursor \<le> fst (fst r)"
proof (induction ws arbitrary: cursor)
  case Nil
  then show ?case by simp
next
  case (Cons w ws)
  obtain t s e where w: "w = (t, s, e)" by (cases w)
  from Cons.prems w Cons.IH [of "cursor + int (length t) + 1"] show ?case by auto
qed

lemma spec_index_from_wf:
  "r \<in> set (spec_index_from cursor ws) \<Longrightarrow> \<forall>u \<in> set ws. fst u \<noteq> [] \<Longrightarrow>
   fst (fst r) < range_end r"
proof (induction ws arbitrary: cursor)
  case Nil
  then show ?case by simp
next
  case (Cons w ws)
  obtain t s e where w: "w = (t, s, e)" by (cases w)
  from Cons.prems w Cons.IH [of "cursor + int (length t) + 1"] show ?case
    by (auto simp: range_end_def)
qed

lemma spec_index_from_end_field:
  "r \<in> set (spec_index_from cursor ws) \<Longrightarrow> \<exists>u \<in> set ws. snd r ''end'' = Some (snd (snd u))"
proof (induction ws arbitrary: cursor)
  case Nil
  then show ?case by simp
next
  case (Cons w ws)
  obtain t s e where w: "w = (t, s, e)" by (cases w)
  from Cons.prems w Cons.IH [of "cursor + int (length t) + 1"] show ?case by auto
qed

lemma spec_index_from_head_before:
  assumes "r \<in> set (spec_index_from (cursor + int (length t) + 1) ws)"
    and "\<forall>u \<in> set ws. fst u \<noteq> []"
  shows "cursor + int (length t) < fst (fst r)" and "cursor + int (length t) < range_end r"
proof -
  from spec_index_from_starts [OF assms(1)]
  show "cursor + int (length t) < fst (fst r)" by simp
  with spec_index_from_wf [OF assms] show "cursor + int (length t) < range_end r" by simp
qed

lemma spec_index_from_disjoint:
  "\<forall>u \<in> set ws. fst u \<noteq> [] \<Longrightarrow>
   r \<in> set (spec_index_from cursor ws) \<Longrightarrow> r' \<in> set (spec_index_from cursor ws) \<Longrightarrow>
   range_end r < range_end r' \<Longrightarrow> range_end r < fst (fst r')"
proof (induction ws arbitrary: cursor)
  case Nil
  then show ?case by simp
next
  case (Cons w ws)
  obtain t s e where w: "w = (t, s, e)" by (cases w)
  let ?h = "((cursor, cursor + int (length t)), [''start'' \<mapsto> s, ''end'' \<mapsto> e])"
  let ?d = "spec_index_from (cursor + int (length t) + 1) ws"
  from Cons.prems(1) have ne: "\<forall>u \<in> set ws. fst u \<noteq> []" by simp
  from Cons.prems(2,3) w have "r = ?h \<or> r \<in> set ?d" and "r' = ?h \<or> r' \<in> set ?d" by auto
  then consider "r = ?h" "r' = ?h" | "r = ?h" "r' \<in> set ?d" | "r \<in> set ?d" "r' = ?h"
    | "r \<in> set ?d" "r' \<in> set ?d" by blast
  then show ?case
  proof cases
    case 1
    with Cons.prems(4) show ?thesis by simp
  next
    case 2
    with spec_index_from_head_before(1) [OF 2(2) ne] show ?thesis by (simp add: range_end_def)
  next
    case 3
    with spec_index_from_head_before(2) [OF 3(1) ne] Cons.prems(4) show ?thesis
      by (simp add: range_end_def)
  next
    case 4
    from Cons.IH [OF ne 4 Cons.prems(4)] show ?thesis .
  qed
qed

lemma spec_index_from_order:
  "sorted (map (\<lambda>u. snd (snd u)) ws) \<Longrightarrow> \<forall>u \<in> set ws. fst u \<noteq> [] \<Longrightarrow>
   r \<in> set (spec_index_from cursor ws) \<Longrightarrow> r' \<in> set (spec_index_from cursor ws) \<Longrightarrow>
   range_end r \<le> range_end r' \<Longrightarrow> snd r ''end'' = Some a \<Longrightarrow> snd r' ''end'' = Some b \<Longrightarrow>
   a \<le> b"
proof (induction ws arbitrary: cursor)
  case Nil
  then show ?case by simp
next
  case (Cons w ws)
  obtain t s e where w: "w = (t, s, e)" by (cases w)
  let ?h = "((cursor, cursor + int (length t)), [''start'' \<mapsto> s, ''end'' \<mapsto> e])"
  let ?d = "spec_index_from (cursor + int (length t) + 1) ws"
  from Cons.prems(2) have ne: "\<forall>u \<in> set ws. fst u \<noteq> []" by simp
  from Cons.prems(1) w have srt: "sorted (map (\<lambda>u. snd (snd u)) ws)"
    and low: "\<forall>u \<in> set ws. e \<le> snd (snd u)" by auto
  from Cons.prems(3,4) w have "r = ?h \<or> r \<in> set ?d" and "r' = ?h \<or> r' \<in> set ?d" by auto
  then consider "r = ?h" "r' = ?h" | "r = ?h" "r' \<in> set ?d" | "r \<in> set ?d" "r' = ?h"
    | "r \<in> set ?d" "r' \<in> set ?d" by blast
  then show ?case
  proof cases
    case 1
    with Cons.prems(6,7) show ?thesis by simp
  next
    case 2
    from spec_index_from_end_field [OF 2(2)] Cons.prems(7) low have "e \<le> b" by auto
    with 2(1) Cons.prems(6) show ?thesis by simp
  next
    case 3
    with spec_index_from_head_before(2) [OF 3(1) ne] Cons.prems(5) show ?thesis
      by (simp add: range_end_def)
  next
    case 4
    from Cons.IH [OF srt ne 4 Cons.prems(5,6,7)] show ?thesis .
  qed
qed

lemma interpolate_end_defined:
  assumes ne: "ws \<noteq> []" and nonblank: "\<forall>u \<in> set ws. fst u \<noteq> []" and p: "cursor \<le> p"
  shows "\<exists>u \<in> set ws. interpolateTimeFromDict p (spec_index_from cursor ws) ''end''
                         = Some (snd (snd u))"
proof (rule interpolateTimeFromDict_cases
         [where d = "spec_index_from cursor ws" and p = p and f = "''end''"], goal_cases)
  case (1 r)
  with spec_index_from_end_field [OF 1(1)] show ?case by simp
next
  case (2 r)
  with spec_index_from_end_field [OF 2(2)] show ?case by simp
next
  case 3
  from ne obtain t s e rest where ws: "ws = (t, s, e) # rest"
    by (cases ws) auto
  let ?h = "((cursor, cursor + int (length t)), [''start'' \<mapsto> s, ''end'' \<mapsto> e])"
  have h: "?h \<in> set (spec_index_from cursor ws)" by (simp add: ws)
  with 3(1) p have "range_end ?h \<le> p"
    by (auto simp: in_range_def range_end_def)
  with 3(2) h show ?case by blast
qed

lemma interpolate_end_mono:
  assumes srt: "sorted (map (\<lambda>u. snd (snd u)) ws)" and nonblank: "\<forall>u \<in> set ws. fst u \<noteq> []"
    and pq: "p \<le> q"
    and a: "interpolateTimeFromDict p (spec_index_from cursor ws) ''end'' = Some a"
    and b: "interpolateTimeFromDict q (spec_index_from cursor ws) ''end'' = Some b"
  shows "a \<le> b"
proof -
  let ?d = "spec_index_from cursor ws"
  have order: "a \<le> b"
    if "r \<in> set ?d" "r' \<in> set ?d" "range_end r \<le> range_end r'"
       "snd r ''end'' = Some a" "snd r' ''end'' = Some b" for r r'
    using spec_index_from_order [OF srt nonblank that] .
  have "\<exists>r \<in> set ?d. snd r ''end'' = Some a \<and> (in_range p r \<or> range_end r \<le> p)"
  proof (rule interpolateTimeFromDict_cases [where d = ?d and p = p and f = "''end''"],
      goal_cases)
    case (1 r)
    with a show ?case by auto
  next
    case (2 r)
    with a show ?case by auto
  next
    case 3
    with a show ?case by simp
  qed
  then obtain r where r: "r \<in> set ?d" "snd r ''end'' = Some a"
    and r_pos: "in_range p r \<or> range_end r \<le> p"
    by blast
  show ?thesis
  proof (rule interpolateTimeFromDict_cases [where d = ?d and p = q and f = "''end''"],
      goal_cases)
    case (1 r')
    have "range_end r \<le> range_end r'"
    proof (rule ccontr)
      assume "\<not> range_end r \<le> range_end r'"
      then have less: "range_end r' < range_end r" by simp
      from spec_index_from_disjoint [OF nonblank 1(1) r(1) less]
      have "range_end r' < fst (fst r)" .
      with r_pos 1(2) pq less show False by (auto simp: in_range_def range_end_def)
    qed
    with r 1 b show ?case by (intro order [of r r']) simp_all
  next
    case (2 r')
    from 2(1) r(1) have "\<not> in_range q r" by blast
    with r_pos pq have "range_end r \<le> q" by (auto simp: in_range_def range_end_def)
    with 2(4) r(1) have "range_end r \<le> range_end r'" by blast
    with r 2 b show ?case by (intro order [of r r']) simp_all
  next
    case 3
    with b show ?case by simp
  qed
qed

lemma estimated_step_inv:
  assumes "0 \<le> dpc" and "estimated_inv dpc k ps"
  shows "estimated_inv dpc (Suc k) (estimated_step cp dpc ps (k, c))"
proof -
  define lo hi where "lo = real k * dpc" and "hi = real (k + 1) * dpc"
  from assms(1) have le: "lo \<le> hi"
    by (simp add: lo_def hi_def mult_right_mono)
  have hi: "real (Suc k) * dpc = hi" by (simp add: hi_def)
  from assms(2) have old: "\<forall>e \<in> set ps. fst (fst e) \<le> snd (fst e) \<and> snd (fst e) \<le> lo"
    and srt: "sorted (map (\<lambda>e. snd (fst e)) ps)"
    by (simp_all add: estimated_inv_def lo_def)
  from old le have old': "\<forall>e \<in> set ps. fst (fst e) \<le> snd (fst e) \<and> snd (fst e) \<le> hi"
    by fastforce
  with srt have keep: "estimated_inv dpc (Suc k) ps"
    unfolding estimated_inv_def hi by simp
  from old' srt le have add: "estimated_inv dpc (Suc k) (ps @ [((lo, hi), x)])" for x
    unfolding estimated_inv_def hi by (simp add: sorted_append)
  have "estimated_step cp dpc ps (k, c) = ps \<or>
        (\<exists>x. estimated_step cp dpc ps (k, c) = ps @ [((lo, hi), x)])"
    unfolding estimated_step_def lo_def hi_def by (simp add: Let_def)
  with keep add show ?thesis by auto
qed

lemma foldl_estimated_step_inv:
  "0 \<le> dpc \<Longrightarrow> estimated_inv dpc k ps \<Longrightarrow>
   estimated_inv dpc (k + length ws) (foldl (estimated_step cp dpc) ps (enumerate k ws))"
proof (induction ws arbitrary: k ps)
  case Nil
  then show ?case by simp
next
  case (Cons c ws)
  from Cons.IH [OF Cons.prems(1) estimated_step_inv [OF Cons.prems, where cp = cp and c = c]]
  show ?case by simp
qed

lemma timed_step_inv:
  assumes defined: "\<And>p. 0 \<le> p \<Longrightarrow> \<exists>a. interpolateTimeFromDict p d ''end'' = Some a"
    and mono: "\<And>p q a b. p \<le> q \<Longrightarrow> interpolateTimeFromDict p d ''end'' = Some a \<Longrightarrow>
                 interpolateTimeFromDict q d ''end'' = Some b \<Longrightarrow> a \<le> b"
    and inv: "timed_inv d st" and first: "i = 0 \<longrightarrow> fst st = 0"
  shows "timed_inv d (timed_step cp d st (i, c))"
proof -
  obtain tp s ps where st: "st = (tp, s, ps)" by (cases st)
  from inv have tp: "0 \<le> tp"
    and old: "\<forall>e \<in> set ps. fst (fst e) \<le> snd (fst e) \<and> snd (fst e) \<le> s"
    and srt: "sorted (map (\<lambda>e. snd (fst e)) ps)"
    and ahead: "\<And>q a. tp < q \<Longrightarrow> interpolateTimeFromDict q d ''end'' = Some a \<Longrightarrow> s \<le> a"
    by (simp_all add: timed_inv_def st)
  show ?thesis
  proof (cases "strip c = []")
    case True
    with inv show ?thesis by (simp add: timed_step_def st)
  next
    case False
    define tp' where
      "tp' = (if i = 0 then int (length (strip c)) else tp + int (length (strip c)) + 1)"
    from False have "0 < length (strip c)" by simp
    with tp first have less: "tp < tp'" and pos: "0 \<le> tp'"
      by (auto simp: tp'_def st)
    from defined [OF pos] obtain t where t: "interpolateTimeFromDict tp' d ''end'' = Some t"
      by blast
    from ahead [OF less t] have st_le: "s \<le> t" .
    have later: "t \<le> a" if "tp' < q" "interpolateTimeFromDict q d ''end'' = Some a" for q a
      using mono [OF _ t that(2)] that(1) by simp
    have later_old: "s \<le> a" if "tp' < q" "interpolateTimeFromDict q d ''end'' = Some a" for q a
      using ahead [OF _ that(2)] that(1) less by simp
    have step: "timed_step cp d st (i, c) =
        (if emitted_text cp (strip c) \<noteq> []
         then (tp', t, ps @ [((s, t), emitted_text cp (strip c))]) else (tp', s, ps))"
      using False t by (simp add: timed_step_def st Let_def tp'_def emitted_text_def)
    show ?thesis
    proof (cases "emitted_text cp (strip c) \<noteq> []")
      case True
      from old st_le have "\<forall>e \<in> set ps. fst (fst e) \<le> snd (fst e) \<and> snd (fst e) \<le> t"
        by fastforce
      with True step pos st_le later srt show ?thesis
        by (simp add: timed_inv_def sorted_append)
    next
      case False
      with step pos old srt later_old show ?thesis
        by (simp add: timed_inv_def)
    qed
  qed
qed

lemma foldl_timed_step_inv:
  assumes defined: "\<And>p. 0 \<le> p \<Longrightarrow> \<exists>a. interpolateTimeFromDict p d ''end'' = Some a"
    and mono: "\<And>p q a b. p \<le> q \<Longrightarrow> interpolateTimeFromDict p d ''end'' = Some a \<Longrightarrow>
                 interpolateTimeFromDict q d ''end'' = Some b \<Longrightarrow> a \<le> b"
  shows "timed_inv d st \<Longrightarrow> k = 0 \<longrightarrow> fst st = 0 \<Longrightarrow>
         timed_inv d (foldl (timed_step cp d) st (enumerate k ws))"
proof (induction ws arbitrary: k st)
  case Nil
  then show ?case by simp
next
  case (Cons c ws)
  have "timed_inv d (timed_step cp d st (k, c))"
    using Cons.prems by (intro timed_step_inv defined mono) simp_all
  from Cons.IH [OF this, of "Suc k"] show ?case by simp
qed

lemma usable_word_text: "usable_word w \<noteq> Some ([], s, e)"
  by (cases w) (auto split: option.splits if_splits)

lemma usable_words_text: "u \<in> set (usable_words wa) \<Longrightarrow> fst u \<noteq> []"
  by (auto simp: usable_words_def List.map_filter_def usable_word_text split: option.splits)

lemma spec_index_from_Nil: "spec_index_from cursor ws = [] \<longleftrightarrow> ws = []"
  by (cases ws) auto

lemma getCaptionsWithTime_ordered:
  assumes srt: "sorted (map (\<lambda>u. snd (snd u)) (usable_words wa))"
    and pos: "\<forall>u \<in> set (usable_words wa). 0 \<le> snd (snd u)"
    and dur: "usable_words wa = [] \<longrightarrow> 0 \<le> total_duration_of wa"
  shows "\<exists>r. getCaptionsWithTime wa m cp = Inr r \<and>
             (\<forall>e \<in> set r. fst (fst e) \<le> snd (fst e)) \<and> sorted (map (\<lambda>e. snd (fst e)) r)"
proof (cases "wa_text wa = None \<or> (\<exists>t. wa_text wa = Some t \<and> strip t = [])")
  case True
  from getCaptionsWithTime_blank [OF this] show ?thesis by simp
next
  case False
  then obtain t where t: "wa_text wa = Some t" "strip t \<noteq> []" by auto
  let ?ws = "usable_words wa"
  let ?d = "getTimestampMapping wa"
  let ?chunks = "caption_chunks (strip t) m cp"
  have d: "?d = spec_index_from 0 ?ws" by (rule getTimestampMapping_spec)
  have nonblank: "\<forall>u \<in> set ?ws. fst u \<noteq> []" by (simp add: usable_words_text)
  show ?thesis
  proof (cases "?d = []")
    case True
    with d spec_index_from_Nil [of 0 ?ws] have "?ws = []" by simp
    with dur have T: "0 \<le> total_duration_of wa" by simp
    define dpc where
      "dpc = (if ?chunks \<noteq> [] then total_duration_of wa / real (length ?chunks) else 1)"
    from T have "0 \<le> dpc" by (simp add: dpc_def)
    moreover have "estimated_inv dpc 0 []" by (simp add: estimated_inv_def)
    ultimately have "estimated_inv dpc (0 + length ?chunks)
        (foldl (estimated_step cp dpc) [] (enumerate 0 ?chunks))"
      by (rule foldl_estimated_step_inv)
    with getCaptionsWithTime_estimated [OF t True, of m cp] show ?thesis
      by (auto simp: estimated_inv_def dpc_def)
  next
    case False
    with d spec_index_from_Nil [of 0 ?ws] have ne: "?ws \<noteq> []" by simp
    have defined: "\<exists>a. interpolateTimeFromDict p ?d ''end'' = Some a" if "0 \<le> p" for p
      using interpolate_end_defined [OF ne nonblank that] d by auto
    have mono: "a \<le> b"
      if "p \<le> q" "interpolateTimeFromDict p ?d ''end'' = Some a"
         "interpolateTimeFromDict q ?d ''end'' = Some b" for p q a b
      using interpolate_end_mono [OF srt nonblank that(1)] that(2,3) d by simp
    have "0 \<le> a" if "0 < q" "interpolateTimeFromDict q ?d ''end'' = Some a" for q a
    proof -
      from that(1) have "0 \<le> q" by simp
      from interpolate_end_defined [OF ne nonblank this] that(2) d pos show ?thesis by auto
    qed
    then have init: "timed_inv ?d (0, 0, [])" by (simp add: timed_inv_def)
    let ?st = "foldl (timed_step cp ?d) (0, 0, []) (enumerate 0 ?chunks)"
    have "timed_inv ?d ?st"
      using init by (intro foldl_timed_step_inv defined mono) simp_all
    then have "(\<forall>e \<in> set (snd (snd ?st)). fst (fst e) \<le> snd (fst e)) \<and>
               sorted (map (\<lambda>e. snd (fst e)) (snd (snd ?st)))"
      by (cases ?st) (simp add: timed_inv_def)
    with getCaptionsWithTime_timed [OF t False, of m cp] show ?thesis by simp
  qed
qed

text \<open>
  Claim C2, amended. When the end times of the usable words are not negative and do not
  decrease in segment and word order, and, where there is no usable word, the total
  duration is not negative, every entry that \<open>getCaptionsWithTime\<close> returns starts no
  later than it ends, and the end times do not decrease from an entry to the next.
\<close>

theorem getCaptionsWithTime_monotone:
  "sorted (map (\<lambda>u. snd (snd u)) (usable_words wa)) \<and>
   (\<forall>u \<in> set (usable_words wa). 0 \<le> snd (snd u)) \<and>
   (usable_words wa = [] \<longrightarrow> 0 \<le> total_duration_of wa) \<longrightarrow>
     (\<exists>r. getCaptionsWithTime wa m cp = Inr r \<and>
          (\<forall>e \<in> set r. fst (fst e) \<le> snd (fst e)) \<and>
          (\<forall>i. Suc i < length r \<longrightarrow> snd (fst (r ! i)) \<le> snd (fst (r ! Suc i))))"
proof
  assume "sorted (map (\<lambda>u. snd (snd u)) (usable_words wa)) \<and>
   (\<forall>u \<in> set (usable_words wa). 0 \<le> snd (snd u)) \<and>
   (usable_words wa = [] \<longrightarrow> 0 \<le> total_duration_of wa)"
  with getCaptionsWithTime_ordered [of wa m cp] obtain r
    where r: "getCaptionsWithTime wa m cp = Inr r"
      "\<forall>e \<in> set r. fst (fst e) \<le> snd (fst e)" "sorted (map (\<lambda>e. snd (fst e)) r)"
    by blast
  from r(3) have "\<forall>i. Suc i < length r \<longrightarrow> snd (fst (r ! i)) \<le> snd (fst (r ! Suc i))"
    by (auto simp: sorted_iff_nth_Suc)
  with r(1,2)
  show "\<exists>r. getCaptionsWithTime wa m cp = Inr r \<and>
          (\<forall>e \<in> set r. fst (fst e) \<le> snd (fst e)) \<and>
          (\<forall>i. Suc i < length r \<longrightarrow> snd (fst (r ! i)) \<le> snd (fst (r ! Suc i)))"
    by blast
qed

lemma quick_fox_facts:
  "usable_words quick_fox
     = [(''The'', 0, 3/10), (''quick'', 3/10, 6/10), (''brown'', 6/10, 9/10), (''fox'', 9/10, 12/10)]"
  "getCaptionsWithTime quick_fox 15 False
     = Inr [((0, 6/10), ''The quick''), ((6/10, 12/10), ''brown fox'')]"
  by code_simp+

theorem getCaptionsWithTime_monotone_witness:
  "usable_words quick_fox
     = [(''The'', 0, 3/10), (''quick'', 3/10, 6/10), (''brown'', 6/10, 9/10), (''fox'', 9/10, 12/10)] \<and>
   sorted [3/10, 6/10, 9/10, 12/10 :: real] \<and>
   list_all (\<lambda>e :: real. 0 \<le> e) [3/10, 6/10, 9/10, 12/10] \<and>
   getCaptionsWithTime quick_fox 15 False
     = Inr [((0, 6/10), ''The quick''), ((6/10, 12/10), ''brown fox'')] \<and>
   (0 :: real) \<le> 6/10 \<and> (6/10 :: real) \<le> 12/10"
  using getCaptionsWithTime_monotone [of quick_fox 15 False]
  by (simp add: quick_fox_facts)

text \<open>
  The claim as first stated, for every input, fails when a later word carries earlier
  times: the end of the second entry is looked up in the index while its start is the end
  of the first.
\<close>

lemma backwards_captions:
  "getCaptionsWithTime (hello_world 3 4 1 2) 5 False
     = Inr [((0, 4), ''Hello''), ((4, 2), ''world'')]"
  by code_simp

theorem getCaptionsWithTime_monotone_counterexample:
  "getCaptionsWithTime (hello_world 3 4 1 2) 5 False
     = Inr [((0, 4), ''Hello''), ((4, 2), ''world'')] \<and>
   \<not> fst (fst ((4 :: real, 2 :: real), ''world'')) \<le> snd (fst ((4 :: real, 2 :: real), ''world'')) \<and>
   \<not> snd (fst ((0 :: real, 4 :: real), ''Hello'')) \<le> snd (fst ((4 :: real, 2 :: real), ''world''))"
  by (simp add: backwards_captions)

end
